theory Spec2Isabelle
  imports Main "HOL-Library.AList" "HOL-Library.Char_ord" "HOL-Library.List_Lexorder"
    "HOL-Library.Multiset"
begin

section \<open>Data model of \<^verbatim>\<open>src/sidebar/util/build-thread.js\<close>\<close>

text \<open>
  An \<^verbatim>\<open>Annotation\<close> as far as the thread builder reads it: the optional server
  \<^verbatim>\<open>id\<close>, the local \<^verbatim>\<open>$tag\<close>, the optional \<^verbatim>\<open>references\<close> array and the
  \<^verbatim>\<open>created\<close> timestamp. Strings are compared as JavaScript compares them,
  lexicographically by code unit.
\<close>

record annotation =
  id_ann :: "string option"
  tag :: string
  references :: "string list option"
  created :: string

text \<open>
  The scalar properties of a \<^verbatim>\<open>Thread\<close> object. Counts and depths are JavaScript
  numbers that only ever hold small integers here; they are modelled as \<open>int\<close>.
\<close>

record thread_props =
  id_thr :: string
  annotation :: "annotation option"
  parent :: "string option"
  visible :: bool
  collapsed :: bool
  replyCount :: int
  depth :: int
  totalChildren :: "nat option"

text \<open>
  While \<^verbatim>\<open>threadAnnotations\<close> runs, every \<^verbatim>\<open>Thread\<close> object is the value of exactly one
  own property of the object \<^verbatim>\<open>threads\<close>, and a \<^verbatim>\<open>children\<close> array holds references to
  such objects. The store therefore keeps each object under its key, with its
  \<^verbatim>\<open>children\<close> array as the list of the keys of the objects it refers to. The own
  properties are kept in insertion order.
\<close>

record thread_obj = thread_props +
  childrenRefs :: "string list"

type_synonym threads = "(string \<times> thread_obj) list"

text \<open>The tree that the later passes copy and return.\<close>

datatype thread = Thread (props: thread_props) (children: "thread list")

datatype error =
    TypeError    \<comment> \<open>a property of \<^verbatim>\<open>undefined\<close> is read or written\<close>
  | OutOfFuel    \<comment> \<open>the recursion did not end within the given number of calls\<close>
  | Unmodelled   \<comment> \<open>the run leaves what this model covers\<close>

record options =
  selected :: "string list"
  expanded :: "string \<rightharpoonup> bool"
  forcedVisible :: "string list"
  filterFn :: "(annotation \<Rightarrow> bool) option"
  threadFilterFn :: "(thread \<Rightarrow> bool) option"
  sortCompareFn :: "annotation \<Rightarrow> annotation \<Rightarrow> bool"
  replySortCompareFn :: "annotation \<Rightarrow> annotation \<Rightarrow> bool"

section \<open>JavaScript values\<close>

text \<open>A string-valued optional property is falsy when absent or empty.\<close>

definition truthy :: "string option \<Rightarrow> bool" where
  "truthy s = (case s of None \<Rightarrow> False | Some v \<Rightarrow> v \<noteq> [])"

text \<open>
  \<^verbatim>\<open>threads\<close> is created as \<^verbatim>\<open>{}\<close>, so a lookup that finds no own property goes on to
  \<^verbatim>\<open>Object.prototype\<close>. Its properties are functions (and, for \<^verbatim>\<open>__proto__\<close>, the
  prototype object): truthy values without \<^verbatim>\<open>parent\<close> or \<^verbatim>\<open>children\<close>.
\<close>

definition objectPrototypeProps :: "string list" where
  "objectPrototypeProps =
     [''constructor'', ''hasOwnProperty'', ''isPrototypeOf'', ''propertyIsEnumerable'',
      ''toLocaleString'', ''toString'', ''valueOf'', ''__defineGetter__'',
      ''__defineSetter__'', ''__lookupGetter__'', ''__lookupSetter__'', ''__proto__'']"

datatype property = Own thread_obj | Inherited | Undefined

definition getThread :: "threads \<Rightarrow> string \<Rightarrow> property" where
  "getThread ths k =
     (case map_of ths k of
        Some t \<Rightarrow> Own t
      | None \<Rightarrow> if k \<in> set objectPrototypeProps then Inherited else Undefined)"

text \<open>
  \<^verbatim>\<open>for (const k in threads)\<close> visits the own keys that are array indices in ascending
  numeric order, then the other keys in insertion order.
\<close>

definition isDigit :: "char \<Rightarrow> bool" where
  "isDigit c = (48 \<le> (of_char c :: int) \<and> (of_char c :: int) \<le> 57)"

definition numValue :: "string \<Rightarrow> int" where
  "numValue s = foldl (\<lambda>n c. 10 * n + ((of_char c :: int) - 48)) 0 s"

definition isArrayIndex :: "string \<Rightarrow> bool" where
  "isArrayIndex s =
     (s \<noteq> [] \<and> list_all isDigit s \<and> (s = ''0'' \<or> hd s \<noteq> CHR ''0'')
      \<and> length s \<le> 10 \<and> numValue s < 4294967295)"

definition forInKeys :: "threads \<Rightarrow> string list" where
  "forInKeys ths =
     sort_key numValue (filter isArrayIndex (map fst ths))
     @ filter (\<lambda>k. \<not> isArrayIndex k) (map fst ths)"

section \<open>Building the tree\<close>

definition DEFAULT_THREAD_STATE :: "string \<Rightarrow> annotation option \<Rightarrow> thread_obj" where
  "DEFAULT_THREAD_STATE k a =
     \<lparr>id_thr = k, annotation = a, parent = None, visible = True, collapsed = False,
      replyCount = 0, depth = 0, totalChildren = None, childrenRefs = []\<rparr>"

definition annotationId :: "annotation \<Rightarrow> string" where
  "annotationId a =
     (case id_ann a of None \<Rightarrow> tag a | Some i \<Rightarrow> if i = [] then tag a else i)"

text \<open>
  \<^verbatim>\<open>hasPathToRoot\<close> calls itself once per step up the \<^verbatim>\<open>parent\<close> chain and has no
  bound of its own: the first argument is the number of calls allowed.
\<close>

fun hasPathToRoot :: "nat \<Rightarrow> threads \<Rightarrow> string \<Rightarrow> string \<Rightarrow> error + bool" where
  "hasPathToRoot 0 ths i ancestorId = Inl OutOfFuel"
| "hasPathToRoot (Suc n) ths i ancestorId =
     (case getThread ths ancestorId of
        Undefined \<Rightarrow> Inr False
      | Inherited \<Rightarrow> Inr True
      | Own t \<Rightarrow>
          (case parent t of
             None \<Rightarrow> Inr True
           | Some p \<Rightarrow>
               if p = i then Inr False
               else if p = [] then Inr True
               else hasPathToRoot n ths i p))"

text \<open>
  The two assignments that end \<^verbatim>\<open>setParent\<close>:
  \<^verbatim>\<open>threads[id].parent = parentId; threads[parentId].children.push(threads[id])\<close>.
\<close>

definition attach :: "threads \<Rightarrow> string \<Rightarrow> string \<Rightarrow> error + threads" where
  "attach ths i parentId =
     (case getThread ths i of
        Undefined \<Rightarrow> Inl TypeError
      | Inherited \<Rightarrow> Inl Unmodelled
      | Own t \<Rightarrow>
          (let ths1 = AList.update i (t\<lparr>parent := Some parentId\<rparr>) ths in
           case getThread ths1 parentId of
             Own p \<Rightarrow> Inr (AList.update parentId (p\<lparr>childrenRefs := childrenRefs p @ [i]\<rparr>) ths1)
           | _ \<Rightarrow> Inl TypeError))"

function setParent :: "nat \<Rightarrow> threads \<Rightarrow> string \<Rightarrow> string list \<Rightarrow> error + threads" where
  "setParent fuel ths i parents =
     (case getThread ths i of
        Undefined \<Rightarrow> Inl TypeError
      | Inherited \<Rightarrow> Inl Unmodelled
      | Own t \<Rightarrow>
          if truthy (parent t) \<or> parents = [] then Inr ths
          else
            (case (case getThread ths (last parents) of
                     Undefined \<Rightarrow>
                       setParent fuel
                         (AList.update (last parents) (DEFAULT_THREAD_STATE (last parents) None) ths)
                         (last parents) (butlast parents)
                   | _ \<Rightarrow> Inr ths) of
               Inl e \<Rightarrow> Inl e
             | Inr ths1 \<Rightarrow>
                 (case hasPathToRoot fuel ths1 i (last parents) of
                    Inl e \<Rightarrow> Inl e
                  | Inr ok \<Rightarrow> if ok then attach ths1 i (last parents) else Inr ths1)))"
  by pat_completeness auto
termination
  by (relation "measure (\<lambda>(fuel, ths, i, parents). length parents)") auto

text \<open>The first loop of \<^verbatim>\<open>threadAnnotations\<close>: one \<^verbatim>\<open>Thread\<close> per annotation.
  Assigning to the key \<^verbatim>\<open>__proto__\<close> replaces the prototype of \<^verbatim>\<open>threads\<close> instead of
  adding a property; the model stops there.\<close>

fun createThreads :: "threads \<Rightarrow> annotation list \<Rightarrow> error + threads" where
  "createThreads ths [] = Inr ths"
| "createThreads ths (a # as) =
     (if annotationId a = ''__proto__'' then Inl Unmodelled
      else createThreads
             (AList.update (annotationId a) (DEFAULT_THREAD_STATE (annotationId a) (Some a)) ths) as)"

text \<open>The second loop: attach every annotation to its nearest ancestor.\<close>

definition parentsOf :: "annotation \<Rightarrow> string list" where
  "parentsOf a =
     filter (\<lambda>r. Some r \<noteq> id_ann a) (case references a of None \<Rightarrow> [] | Some rs \<Rightarrow> rs)"

fun linkThreads :: "nat \<Rightarrow> threads \<Rightarrow> annotation list \<Rightarrow> error + threads" where
  "linkThreads fuel ths [] = Inr ths"
| "linkThreads fuel ths (a # as) =
     (case setParent fuel ths (annotationId a) (parentsOf a) of
        Inl e \<Rightarrow> Inl e
      | Inr ths1 \<Rightarrow> linkThreads fuel ths1 as)"

text \<open>The third loop: the threads without a parent, each marked collapsed.\<close>

definition isRoot :: "threads \<Rightarrow> string \<Rightarrow> bool" where
  "isRoot ths k = (case map_of ths k of None \<Rightarrow> False | Some t \<Rightarrow> \<not> truthy (parent t))"

definition rootThreadIds :: "threads \<Rightarrow> string list" where
  "rootThreadIds ths = filter (isRoot ths) (forInKeys ths)"

definition collapseRoots :: "threads \<Rightarrow> threads" where
  "collapseRoots ths =
     map (\<lambda>(k, t). (k, if \<not> truthy (parent t) then t\<lparr>collapsed := True\<rparr> else t)) ths"

text \<open>
  The object graph below a \<^verbatim>\<open>Thread\<close>, read as a tree. The passes of \<^verbatim>\<open>buildThread\<close>
  walk this graph recursively, so a cycle in it keeps them from returning: the first
  argument bounds the depth of the walk.
\<close>

fun mapE :: "('a \<Rightarrow> error + 'b) \<Rightarrow> 'a list \<Rightarrow> error + 'b list" where
  "mapE f [] = Inr []"
| "mapE f (x # xs) =
     (case f x of
        Inl e \<Rightarrow> Inl e
      | Inr y \<Rightarrow> (case mapE f xs of Inl e \<Rightarrow> Inl e | Inr ys \<Rightarrow> Inr (y # ys)))"

fun resolve :: "nat \<Rightarrow> threads \<Rightarrow> string \<Rightarrow> error + thread" where
  "resolve 0 ths k = Inl OutOfFuel"
| "resolve (Suc n) ths k =
     (case map_of ths k of
        None \<Rightarrow> Inl Unmodelled
      | Some t \<Rightarrow>
          (case mapE (resolve n ths) (childrenRefs t) of
             Inl e \<Rightarrow> Inl e
           | Inr cs \<Rightarrow> Inr (Thread (thread_props.truncate t) cs)))"

definition rootProps :: thread_props where
  "rootProps = thread_props.truncate (DEFAULT_THREAD_STATE ''root'' None)"

text \<open>The object \<^verbatim>\<open>threads\<close> as the first two loops leave it.\<close>

definition linkedThreads :: "nat \<Rightarrow> annotation list \<Rightarrow> error + threads" where
  "linkedThreads fuel annotations =
     (case createThreads [] annotations of
        Inl e \<Rightarrow> Inl e
      | Inr ths0 \<Rightarrow> linkThreads fuel ths0 annotations)"

definition threadAnnotations :: "nat \<Rightarrow> annotation list \<Rightarrow> error + thread" where
  "threadAnnotations fuel annotations =
     (case linkedThreads fuel annotations of
        Inl e \<Rightarrow> Inl e
      | Inr ths1 \<Rightarrow>
          (case mapE (resolve fuel (collapseRoots ths1)) (rootThreadIds ths1) of
             Inl e \<Rightarrow> Inl e
           | Inr rootThreads \<Rightarrow> Inr (Thread rootProps rootThreads)))"

section \<open>The passes over the tree\<close>

fun mapThread :: "thread \<Rightarrow> (thread \<Rightarrow> thread) \<Rightarrow> thread" where
  "mapThread (Thread p cs) mapFn =
     Thread (props (mapFn (Thread p cs))) (map (\<lambda>child. mapThread child mapFn) cs)"

text \<open>
  \<^verbatim>\<open>Array.prototype.sort\<close> is stable; for a consistent comparator the result is the one
  stable arrangement, which insertion from the right computes.
\<close>

definition compareThreads :: "(annotation \<Rightarrow> annotation \<Rightarrow> bool) \<Rightarrow> thread \<Rightarrow> thread \<Rightarrow> int" where
  "compareThreads compareFn a b =
     (case (annotation (props a), annotation (props b)) of
        (None, None) \<Rightarrow> 0
      | (None, Some y) \<Rightarrow> -1
      | (Some x, None) \<Rightarrow> 1
      | (Some x, Some y) \<Rightarrow> if compareFn x y then -1 else if compareFn y x then 1 else 0)"

fun insertThread :: "(thread \<Rightarrow> thread \<Rightarrow> int) \<Rightarrow> thread \<Rightarrow> thread list \<Rightarrow> thread list" where
  "insertThread c x [] = [x]"
| "insertThread c x (y # ys) = (if c x y \<le> 0 then x # y # ys else y # insertThread c x ys)"

definition sort_threads :: "thread list \<Rightarrow> (annotation \<Rightarrow> annotation \<Rightarrow> bool) \<Rightarrow> thread list" where
  "sort_threads ts compareFn = foldr (insertThread (compareThreads compareFn)) ts []"

fun sortThread :: "thread \<Rightarrow> (annotation \<Rightarrow> annotation \<Rightarrow> bool) \<Rightarrow> (annotation \<Rightarrow> annotation \<Rightarrow> bool) \<Rightarrow> thread" where
  "sortThread (Thread p cs) compareFn replyCompareFn =
     Thread p
       (sort_threads (map (\<lambda>child. sortThread child replyCompareFn replyCompareFn) cs)
          compareFn)"

fun countRepliesAndDepth :: "thread \<Rightarrow> int \<Rightarrow> thread" where
  "countRepliesAndDepth (Thread p cs) d =
     (let children' = map (\<lambda>c. countRepliesAndDepth c (d + 1)) cs
      in Thread (p\<lparr>depth := d,
                   replyCount :=
                     foldl (\<lambda>total child. total + 1 + replyCount (props child)) 0 children'\<rparr>)
           children')"

fun hasVisibleChildren :: "thread \<Rightarrow> bool" where
  "hasVisibleChildren (Thread p cs) =
     list_ex (\<lambda>child. visible (props child) \<or> hasVisibleChildren child) cs"

section \<open>\<^verbatim>\<open>buildThread\<close>\<close>

text \<open>
  \<^verbatim>\<open>opts = {...defaultOpts, ...options}\<close>: the model takes the merged record, and
  \<open>defaultOpts\<close> is what an empty \<^verbatim>\<open>options\<close> gives.
\<close>

definition defaultOpts :: options where
  "defaultOpts =
     \<lparr>selected = [], expanded = Map.empty, forcedVisible = [], filterFn = None,
      threadFilterFn = None,
      sortCompareFn = (\<lambda>a b. tag a < tag b),
      replySortCompareFn = (\<lambda>a b. created a < created b)\<rparr>"

definition setChildren :: "thread \<Rightarrow> thread list \<Rightarrow> thread" where
  "setChildren t cs = Thread (props t) cs"

definition keepSelected :: "options \<Rightarrow> thread \<Rightarrow> bool" where
  "keepSelected opts child =
     (id_thr (props child) \<in> set (selected opts)
      \<or> (forcedVisible opts \<noteq> []
          \<and> (case annotation (props child) of
                None \<Rightarrow> False
              | Some a \<Rightarrow> tag a \<in> set (forcedVisible opts))))"

definition setVisible :: "options \<Rightarrow> thread \<Rightarrow> thread" where
  "setVisible opts t =
     Thread ((props t)\<lparr>visible :=
        (case annotation (props t) of
           None \<Rightarrow> False
         | Some a \<Rightarrow>
             (case filterFn opts of
                None \<Rightarrow> visible (props t)
              | Some f \<Rightarrow>
                  if forcedVisible opts \<noteq> [] \<and> tag a \<in> set (forcedVisible opts) then True
                  else f a))\<rparr>)
       (children t)"

definition setCollapsed :: "options \<Rightarrow> thread \<Rightarrow> thread" where
  "setCollapsed opts t =
     Thread ((props t)\<lparr>collapsed :=
        (case expanded opts (id_thr (props t)) of
           Some e \<Rightarrow> \<not> e
         | None \<Rightarrow> collapsed (props t) \<and> \<not> (filterFn opts \<noteq> None \<and> hasVisibleChildren t))\<rparr>)
       (children t)"

text \<open>The statements of \<^verbatim>\<open>buildThread\<close> that assign to \<^verbatim>\<open>thread.children\<close> and to
  \<^verbatim>\<open>thread.totalChildren\<close> of the root.\<close>

definition selectThreads :: "options \<Rightarrow> thread \<Rightarrow> thread" where
  "selectThreads opts t =
     (if selected opts \<noteq> [] then setChildren t (filter (keepSelected opts) (children t)) else t)"

definition filterThreads :: "options \<Rightarrow> thread \<Rightarrow> thread" where
  "filterThreads opts t =
     (case threadFilterFn opts of
        None \<Rightarrow> t
      | Some f \<Rightarrow> setChildren t (filter f (children t)))"

definition pruneInvisible :: "thread \<Rightarrow> thread" where
  "pruneInvisible t =
     setChildren t
       (filter (\<lambda>child. visible (props child) \<or> hasVisibleChildren child) (children t))"

definition setTotalChildren :: "thread \<Rightarrow> thread" where
  "setTotalChildren t =
     Thread ((props t)\<lparr>totalChildren := Some (length (children t))\<rparr>) (children t)"

text \<open>\<^verbatim>\<open>buildThread\<close> after the call of \<^verbatim>\<open>threadAnnotations\<close>, statement by statement,
  when the calls of \<^verbatim>\<open>opts.expanded.hasOwnProperty\<close> return.\<close>

definition project :: "options \<Rightarrow> thread \<Rightarrow> thread" where
  "project opts thread0 =
     (let thread1 = selectThreads opts thread0;
          thread2 = filterThreads opts thread1;
          thread3 = mapThread thread2 (setVisible opts);
          thread4 = pruneInvisible thread3;
          thread5 = mapThread thread4 (setCollapsed opts);
          thread6 = sortThread thread5 (sortCompareFn opts) (replySortCompareFn opts);
          thread7 = countRepliesAndDepth thread6 (- 1)
      in setTotalChildren thread7)"

text \<open>
  The collapse pass calls \<^verbatim>\<open>opts.expanded.hasOwnProperty(thread.id)\<close> in every thread,
  the root first. When \<^verbatim>\<open>expanded\<close> has an own property named \<^verbatim>\<open>hasOwnProperty\<close>, what
  is called is that property, a boolean: a \<^verbatim>\<open>TypeError\<close>. The passes before it change
  nothing but the tree, so the outcome is the same as if the throw came first.
\<close>

definition buildThread :: "nat \<Rightarrow> annotation list \<Rightarrow> options \<Rightarrow> error + thread" where
  "buildThread fuel annotations opts =
     (case threadAnnotations fuel annotations of
        Inl e \<Rightarrow> Inl e
      | Inr thread0 \<Rightarrow>
          if expanded opts ''hasOwnProperty'' \<noteq> None then Inl TypeError
          else Inr (project opts thread0))"

section \<open>Reading the returned tree\<close>

text \<open>The strict descendants of a thread, and all the threads of a tree.\<close>

fun descendants :: "thread \<Rightarrow> thread list" where
  "descendants (Thread p cs) = concat (map (\<lambda>c. c # descendants c) cs)"

definition subthreads :: "thread \<Rightarrow> thread list" where
  "subthreads t = t # descendants t"

definition threadId :: "thread \<Rightarrow> string" where
  "threadId t = id_thr (props t)"

text \<open>
  The comparison functions are documented as less-than predicates: irreflexive,
  transitive, and with incomparability transitive (a strict weak order), as
  \<^verbatim>\<open>a.$tag < b.$tag\<close> is.
\<close>

definition lessThanPredicate :: "('a \<Rightarrow> 'a \<Rightarrow> bool) \<Rightarrow> bool" where
  "lessThanPredicate cmp =
     ((\<forall>a. \<not> cmp a a) \<and> (\<forall>a b c. cmp a b \<longrightarrow> cmp b c \<longrightarrow> cmp a c)
      \<and> (\<forall>a b c. cmp a c \<longrightarrow> cmp a b \<or> cmp b c))"

text \<open>
  \<open>mayPrecede cmp x y\<close>: the sort contract allows \<open>x\<close> somewhere before \<open>y\<close> in a sorted
  list. An annotated thread never precedes a placeholder, and of two annotated threads
  the later one is not less than the earlier one.
\<close>

definition mayPrecede :: "(annotation \<Rightarrow> annotation \<Rightarrow> bool) \<Rightarrow> thread \<Rightarrow> thread \<Rightarrow> bool" where
  "mayPrecede cmp x y =
     (case annotation (props y) of
        None \<Rightarrow> annotation (props x) = None
      | Some b \<Rightarrow> (case annotation (props x) of None \<Rightarrow> True | Some a \<Rightarrow> \<not> cmp b a))"

text \<open>Two threads that the comparator of \<^verbatim>\<open>sort\<close> reports as equal.\<close>

definition sameRank :: "(annotation \<Rightarrow> annotation \<Rightarrow> bool) \<Rightarrow> thread \<Rightarrow> thread \<Rightarrow> bool" where
  "sameRank cmp x y = (compareThreads cmp x y = 0)"

text \<open>Every \<^verbatim>\<open>children\<close> list of a tree is in order: the list of the given thread by
  \<open>cmp\<close>, all deeper ones by \<open>replyCmp\<close>.\<close>

fun sortedThread ::
  "(annotation \<Rightarrow> annotation \<Rightarrow> bool) \<Rightarrow> (annotation \<Rightarrow> annotation \<Rightarrow> bool) \<Rightarrow> thread \<Rightarrow> bool" where
  "sortedThread cmp replyCmp (Thread p cs) =
     (sorted_wrt (mayPrecede cmp) cs \<and> (\<forall>c\<in>set cs. sortedThread replyCmp replyCmp c))"

text \<open>
  Parent links and children lists that agree. In the store: every thread is kept under
  its own id, no \<^verbatim>\<open>parent\<close> is the empty string, and whoever is in the \<^verbatim>\<open>children\<close> of a
  thread names that thread as its parent. In a tree: every child names the thread above
  it as its parent; for the root, whose id no thread names: its children have no
  parent.
\<close>

definition consistent :: "threads \<Rightarrow> bool" where
  "consistent ths =
     (\<forall>k t. map_of ths k = Some t \<longrightarrow>
        id_thr t = k \<and> parent t \<noteq> Some []
        \<and> (\<forall>c\<in>set (childrenRefs t). \<exists>tc. map_of ths c = Some tc \<and> parent tc = Some k))"

definition fresh :: "threads \<Rightarrow> bool" where
  "fresh ths =
     (\<forall>k t. map_of ths k = Some t \<longrightarrow> id_thr t = k \<and> parent t = None \<and> childrenRefs t = [])"

fun linked :: "thread \<Rightarrow> bool" where
  "linked (Thread p cs) = (\<forall>c\<in>set cs. parent (props c) = Some (id_thr p) \<and> linked c)"

definition topLinked :: "thread \<Rightarrow> bool" where
  "topLinked t = (\<forall>c\<in>set (children t). parent (props c) = None \<and> linked c)"

text \<open>
  Parent chains that end: \<open>level ths k n\<close> says that \<open>n\<close> steps along \<^verbatim>\<open>parent\<close> lead from
  the thread \<open>k\<close> to a thread without parent, \<open>levelAvoiding ths i k n\<close> that none of the
  threads on the way, \<open>k\<close> included, is \<open>i\<close>.
\<close>

inductive level :: "threads \<Rightarrow> string \<Rightarrow> nat \<Rightarrow> bool" for ths :: threads where
  top: "map_of ths k = Some t \<Longrightarrow> parent t = None \<Longrightarrow> level ths k 0"
| below: "map_of ths k = Some t \<Longrightarrow> parent t = Some q \<Longrightarrow> level ths q n \<Longrightarrow> level ths k (Suc n)"

inductive levelAvoiding :: "threads \<Rightarrow> string \<Rightarrow> string \<Rightarrow> nat \<Rightarrow> bool"
  for ths :: threads and i :: string where
  top: "map_of ths k = Some t \<Longrightarrow> parent t = None \<Longrightarrow> k \<noteq> i \<Longrightarrow> levelAvoiding ths i k 0"
| below: "map_of ths k = Some t \<Longrightarrow> parent t = Some q \<Longrightarrow> k \<noteq> i \<Longrightarrow> levelAvoiding ths i q n
    \<Longrightarrow> levelAvoiding ths i k (Suc n)"

definition rooted :: "threads \<Rightarrow> bool" where
  "rooted ths = (\<forall>k t. map_of ths k = Some t \<longrightarrow> (\<exists>n. level ths k n))"

text \<open>
  Reference lists without the entries that \<^verbatim>\<open>setParent\<close> and \<^verbatim>\<open>hasPathToRoot\<close> mishandle: the
  annotation's own identity, a repeated id, the empty string, the name of a property of
  \<^verbatim>\<open>Object.prototype\<close>.
\<close>

definition plainReferences :: "annotation \<Rightarrow> bool" where
  "plainReferences a =
     (annotationId a \<noteq> ''__proto__'' \<and> annotationId a \<notin> set (parentsOf a)
      \<and> distinct (parentsOf a) \<and> [] \<notin> set (parentsOf a)
      \<and> (\<forall>q\<in>set (parentsOf a). q \<notin> set objectPrototypeProps))"

text \<open>
  The links that the reference lists ask for: every entry as the parent of the next one,
  the last entry as the parent of the annotation. \<^verbatim>\<open>setParent\<close> makes no other link.
\<close>

fun adjacent :: "string list \<Rightarrow> (string \<times> string) list" where
  "adjacent (x # y # zs) = (y, x) # adjacent (y # zs)"
| "adjacent zs = []"

definition claimedLinks :: "annotation list \<Rightarrow> (string \<times> string) set" where
  "claimedLinks annotations =
     (\<Union>a\<in>set annotations. set (adjacent (parentsOf a @ [annotationId a])))"

text \<open>\<open>reaches ths x m k\<close>: \<open>m\<close> steps along \<^verbatim>\<open>parent\<close> lead from the thread \<open>x\<close> to the thread \<open>k\<close>.\<close>

inductive reaches :: "threads \<Rightarrow> string \<Rightarrow> nat \<Rightarrow> string \<Rightarrow> bool" for ths :: threads where
  here: "map_of ths x = Some t \<Longrightarrow> reaches ths x 0 x"
| up: "map_of ths x = Some t \<Longrightarrow> parent t = Some q \<Longrightarrow> reaches ths q m k
    \<Longrightarrow> reaches ths x (Suc m) k"

text \<open>
  What else holds of the object \<^verbatim>\<open>threads\<close> while the annotations are linked: the keys are
  distinct, every thread is visible, no thread is twice in a \<^verbatim>\<open>children\<close> list, an
  annotation is kept under its own identity, and a thread with a parent was asked for
  by a reference list and is among the children of that parent.
\<close>

definition wired :: "annotation list \<Rightarrow> threads \<Rightarrow> bool" where
  "wired annotations ths =
     (distinct (map fst ths)
      \<and> (\<forall>k t. map_of ths k = Some t \<longrightarrow>
           visible t \<and> distinct (childrenRefs t)
           \<and> (\<forall>a. annotation t = Some a \<longrightarrow> a \<in> set annotations \<and> annotationId a = k)
           \<and> (\<forall>q. parent t = Some q \<longrightarrow>
                (k, q) \<in> claimedLinks annotations
                \<and> (\<exists>tq. map_of ths q = Some tq \<and> k \<in> set (childrenRefs tq)))))"

definition sound :: "annotation list \<Rightarrow> threads \<Rightarrow> bool" where
  "sound as ths = (consistent ths \<and> wired as ths)"

text \<open>
  A thread \<open>i\<close> after \<^verbatim>\<open>setParent\<close> was called for it with \<open>p\<close> as the last reference: attached
  to \<open>p\<close>, or without parent because the parents of \<open>p\<close> lead to a thread whose parent is
  \<open>i\<close>.
\<close>

definition outcome :: "threads \<Rightarrow> string \<Rightarrow> string \<Rightarrow> bool" where
  "outcome ths i p =
     (\<exists>ti tp. map_of ths i = Some ti \<and> map_of ths p = Some tp
        \<and> (parent ti = Some p
            \<or> parent ti = None
              \<and> (\<exists>x m tx. reaches ths p m x \<and> map_of ths x = Some tx \<and> parent tx = Some i)))"

text \<open>
  Positions in a tree, by what no pass changes: the id, the annotation and the parent of
  a thread. \<open>pathIn t ks\<close>: below \<open>t\<close> there are threads with the keys \<open>ks\<close>, each a child of
  the one before, the first a child of \<open>t\<close>; \<open>downPath\<close> is the same in \<^verbatim>\<open>threads\<close>.
\<close>

type_synonym key = "string \<times> annotation option \<times> string option"

definition key :: "thread \<Rightarrow> key" where
  "key n = (id_thr (props n), annotation (props n), parent (props n))"

fun pathIn :: "thread \<Rightarrow> key list \<Rightarrow> bool" where
  "pathIn t [] = True"
| "pathIn t (k # ks) = (\<exists>c\<in>set (children t). key c = k \<and> pathIn c ks)"

definition storeKey :: "threads \<Rightarrow> string \<Rightarrow> key" where
  "storeKey ths x =
     (case map_of ths x of None \<Rightarrow> (x, None, None) | Some t \<Rightarrow> (x, annotation t, parent t))"

fun downPath :: "threads \<Rightarrow> string \<Rightarrow> string list \<Rightarrow> bool" where
  "downPath ths k [] = True"
| "downPath ths k (x # xs) =
     ((\<exists>t. map_of ths k = Some t \<and> x \<in> set (childrenRefs t)) \<and> downPath ths x xs)"

text \<open>The ids of the threads of a tree, with the thread itself and without.\<close>

definition idsOf :: "thread \<Rightarrow> string list" where
  "idsOf t = map threadId (subthreads t)"

definition idsBelow :: "thread \<Rightarrow> string list" where
  "idsBelow t = map threadId (descendants t)"

section \<open>Basic facts\<close>

lemma truthy_simps: "truthy None = False" "truthy (Some v) = (v \<noteq> [])"
  by (simp_all add: truthy_def)

declare setParent.simps [simp del]

lemmas store_defs =
  getThread_def objectPrototypeProps_def truthy_simps DEFAULT_THREAD_STATE_def attach_def

lemmas build_defs =
  buildThread_def threadAnnotations_def linkedThreads_def annotationId_def parentsOf_def

lemmas tree_defs =
  rootThreadIds_def isRoot_def forInKeys_def isArrayIndex_def isDigit_def numValue_def
  collapseRoots_def rootProps_def thread_props.truncate_def DEFAULT_THREAD_STATE_def
  project_def selectThreads_def filterThreads_def pruneInvisible_def setTotalChildren_def
  setChildren_def setVisible_def setCollapsed_def sort_threads_def compareThreads_def
  defaultOpts_def Let_def

subsection \<open>Trees and the passes over them\<close>

lemma set_subthreads:
  "set (subthreads (Thread p cs)) = insert (Thread p cs) (\<Union>c\<in>set cs. set (subthreads c))"
  by (auto simp: subthreads_def)

lemma length_descendants:
  "int (length (descendants (Thread p cs))) = (\<Sum>c\<leftarrow>cs. 1 + int (length (descendants c)))"
  by (induction cs) (simp_all add: )

lemma foldl_replies:
  "foldl (\<lambda>total child. total + 1 + replyCount (props child)) acc cs
     = acc + (\<Sum>c\<leftarrow>cs. 1 + replyCount (props c))"
  by (induction cs arbitrary: acc) simp_all

lemma props_countRepliesAndDepth:
  "props (countRepliesAndDepth t d) =
     (props t)\<lparr>depth := d,
       replyCount := (\<Sum>c\<leftarrow>children (countRepliesAndDepth t d). 1 + replyCount (props c))\<rparr>"
  by (cases t) (simp add: Let_def foldl_replies)

lemma children_countRepliesAndDepth:
  "children (countRepliesAndDepth t d) = map (\<lambda>c. countRepliesAndDepth c (d + 1)) (children t)"
  by (cases t) (simp add: Let_def)

lemma replyCount_descendants:
  "replyCount (props (countRepliesAndDepth t d))
     = int (length (descendants (countRepliesAndDepth t d)))"
proof (induction t arbitrary: d)
  case (Thread p cs)
  have "(\<Sum>c\<leftarrow>cs. 1 + replyCount (props (countRepliesAndDepth c (d + 1))))
      = (\<Sum>c\<leftarrow>cs. 1 + int (length (descendants (countRepliesAndDepth c (d + 1)))))"
    using Thread.IH by (intro arg_cong[where f = sum_list] map_cong) simp_all
  then show ?case
    by (simp add: Let_def foldl_replies length_descendants comp_def del: descendants.simps)
qed

lemma subthreads_countRepliesAndDepth:
  "n \<in> set (subthreads (countRepliesAndDepth t d)) \<Longrightarrow> \<exists>t' d'. n = countRepliesAndDepth t' d'"
proof (induction t arbitrary: d)
  case (Thread p cs)
  obtain p' where T: "countRepliesAndDepth (Thread p cs) d
      = Thread p' (map (\<lambda>c. countRepliesAndDepth c (d + 1)) cs)"
    by (simp add: Let_def)
  from Thread.prems consider "n = countRepliesAndDepth (Thread p cs) d"
    | c where "c \<in> set cs" "n \<in> set (subthreads (countRepliesAndDepth c (d + 1)))"
    unfolding T set_subthreads by auto
  then show ?case
  proof cases
    case 1
    then show ?thesis by blast
  next
    case 2
    then show ?thesis by (rule Thread.IH)
  qed
qed

lemma threadAnnotations_props:
  "threadAnnotations fuel anns = Inr t \<Longrightarrow> props t = rootProps"
  by (auto simp: threadAnnotations_def split: sum.splits)

lemma props_mapThread: "props (mapThread t f) = props (f t)"
  by (cases t) simp

lemma children_mapThread: "children (mapThread t f) = map (\<lambda>c. mapThread c f) (children t)"
  by (cases t) simp

lemma props_sortThread: "props (sortThread t c r) = props t"
  by (cases t) simp

lemma project_shape:
  "\<exists>t6. project opts t0 = setTotalChildren (countRepliesAndDepth t6 (- 1))"
  unfolding project_def Let_def by blast

lemma subthreads_setTotalChildren:
  "n \<in> set (subthreads (setTotalChildren t)) \<Longrightarrow>
     n = setTotalChildren t \<or> n \<in> set (descendants t)"
  by (cases t) (auto simp: setTotalChildren_def subthreads_def)

lemma children_subthreads:
  "n \<in> set (subthreads t) \<Longrightarrow> c \<in> set (children n) \<Longrightarrow> c \<in> set (subthreads t)"
proof (induction t)
  case (Thread p cs)
  from Thread.prems(1) consider "n = Thread p cs"
    | c' where "c' \<in> set cs" "n \<in> set (subthreads c')"
    unfolding set_subthreads by auto
  then show ?case
  proof cases
    case 1
    with Thread.prems(2) have "c \<in> set cs" by simp
    moreover have "c \<in> set (subthreads c)" by (simp add: subthreads_def)
    ultimately show ?thesis unfolding set_subthreads by blast
  next
    case 2
    with Thread.IH Thread.prems(2) have "c \<in> set (subthreads c')" by blast
    with 2(1) show ?thesis unfolding set_subthreads by blast
  qed
qed

lemma props_setChildren [simp]: "props (setChildren t cs) = props t"
  by (simp add: setChildren_def)

lemma children_setChildren [simp]: "children (setChildren t cs) = cs"
  by (simp add: setChildren_def)

lemma props_selectThreads [simp]: "props (selectThreads opts t) = props t"
  by (simp add: selectThreads_def)

lemma props_filterThreads [simp]: "props (filterThreads opts t) = props t"
  by (simp add: filterThreads_def split: option.split)

lemma props_pruneInvisible [simp]: "props (pruneInvisible t) = props t"
  by (simp add: pruneInvisible_def)

subsection \<open>The store of threads\<close>

lemma map_of_update_same: "map_of (AList.update k v al) k = Some v"
  by (simp add: AList.update_conv')

lemma map_of_update_other: "k' \<noteq> k \<Longrightarrow> map_of (AList.update k v al) k' = map_of al k'"
  by (simp add: AList.update_conv')

lemma getThread_Own: "(getThread ths k = Own t) = (map_of ths k = Some t)"
  by (auto simp: getThread_def split: option.splits)

lemma getThread_Undefined: "getThread ths k = Undefined \<Longrightarrow> map_of ths k = None"
  by (auto simp: getThread_def split: option.splits if_splits)

text \<open>What an attachment changes: the parent of the child, the children of the parent.\<close>

lemma attach_keeps:
  assumes "attach ths i q = Inr ths'" "map_of ths k = Some t"
  shows "\<exists>t'. map_of ths' k = Some t' \<and> annotation t' = annotation t \<and> id_thr t' = id_thr t
      \<and> (k \<noteq> i \<longrightarrow> parent t' = parent t)"
  using assms
  by (auto simp: attach_def getThread_def Let_def AList.update_conv'
      split: option.splits if_splits property.splits)

lemma setParent_keeps:
  "setParent fuel ths i ps = Inr ths' \<Longrightarrow> map_of ths k = Some t \<Longrightarrow>
     \<exists>t'. map_of ths' k = Some t' \<and> annotation t' = annotation t \<and> id_thr t' = id_thr t
        \<and> (k \<noteq> i \<longrightarrow> parent t' = parent t)"
proof (induction fuel ths i ps arbitrary: ths' t rule: setParent.induct)
  case (1 fuel ths i parents)
  show ?case
  proof (cases "getThread ths i")
    case (Own ti)
    show ?thesis
    proof (cases "truthy (parent ti) \<or> parents = []")
      case True
      with Own "1.prems" show ?thesis by (simp add: setParent.simps)
    next
      case False
      define q where "q = last parents"
      define ths0 where "ths0 = AList.update q (DEFAULT_THREAD_STATE q None) ths"
      define inner where "inner = (case getThread ths q of
                     Undefined \<Rightarrow> setParent fuel ths0 q (butlast parents)
                   | _ \<Rightarrow> Inr ths)"
      have unfold: "setParent fuel ths i parents =
          (case inner of
               Inl e \<Rightarrow> Inl e
             | Inr ths1 \<Rightarrow>
                 (case hasPathToRoot fuel ths1 i q of
                    Inl e \<Rightarrow> Inl e
                  | Inr ok \<Rightarrow> if ok then attach ths1 i q else Inr ths1))"
        using Own False unfolding inner_def ths0_def q_def
        by (simp add: setParent.simps[of fuel ths i parents])
      from "1.prems"(1) obtain ths1 ok where inner: "inner = Inr ths1"
        and last: "(if ok then attach ths1 i q else Inr ths1) = Inr ths'"
        unfolding unfold by (auto split: sum.splits)
      have mid: "\<exists>t1. map_of ths1 k = Some t1 \<and> annotation t1 = annotation t
          \<and> id_thr t1 = id_thr t \<and> parent t1 = parent t"
      proof (cases "getThread ths q")
        case Undefined
        then have kq: "k \<noteq> q" using "1.prems"(2) by (auto dest: getThread_Undefined)
        then have a: "map_of ths0 k = Some t"
          using "1.prems"(2) by (simp add: ths0_def map_of_update_other)
        have b: "setParent fuel ths0 q (butlast parents) = Inr ths1"
          using inner Undefined by (simp add: inner_def)
        from "1.IH"[OF Own False Undefined[unfolded q_def], folded q_def,
            OF b[unfolded ths0_def] a[unfolded ths0_def]] kq
        show ?thesis by blast
      next
        case (Own tq)
        with inner "1.prems"(2) show ?thesis by (simp add: inner_def)
      next
        case Inherited
        with inner "1.prems"(2) show ?thesis by (simp add: inner_def)
      qed
      then obtain t1 where t1: "map_of ths1 k = Some t1" "annotation t1 = annotation t"
          "id_thr t1 = id_thr t" "parent t1 = parent t" by blast
      show ?thesis
      proof (cases ok)
        case True
        with last have "attach ths1 i q = Inr ths'" by simp
        from attach_keeps[OF this t1(1)] t1 show ?thesis by auto
      next
        case False
        with last t1 show ?thesis by auto
      qed
    qed
  next
    case Inherited
    with "1.prems" show ?thesis by (simp add: setParent.simps)
  next
    case Undefined
    with "1.prems" show ?thesis by (simp add: setParent.simps)
  qed
qed

lemmas pass_defs =
  rootThreadIds_def isRoot_def forInKeys_def
  collapseRoots_def rootProps_def thread_props.truncate_def DEFAULT_THREAD_STATE_def
  project_def selectThreads_def filterThreads_def pruneInvisible_def setTotalChildren_def
  setChildren_def setVisible_def setCollapsed_def sort_threads_def compareThreads_def
  defaultOpts_def Let_def

subsection \<open>What a pass does to the threads of a tree\<close>

lemma subthreads_Thread:
  "subthreads (Thread p cs) = Thread p cs # concat (map subthreads cs)"
  by (simp add: subthreads_def[abs_def])

lemma self_subthreads [simp]: "t \<in> set (subthreads t)"
  by (simp add: subthreads_def)

lemma nodes_mapThread:
  "n \<in> set (subthreads (mapThread t g)) \<Longrightarrow> \<exists>m\<in>set (subthreads t). props n = props (g m)"
proof (induction t)
  case (Thread p cs)
  from Thread.prems consider "n = mapThread (Thread p cs) g"
    | c where "c \<in> set cs" "n \<in> set (subthreads (mapThread c g))"
    by (auto simp: subthreads_Thread)
  then show ?case
  proof cases
    case 1
    then show ?thesis by (auto simp: subthreads_Thread)
  next
    case 2
    with Thread.IH obtain m where "m \<in> set (subthreads c)" "props n = props (g m)" by blast
    with 2(1) show ?thesis by (auto simp: subthreads_Thread)
  qed
qed

lemma insertThread_set: "set (insertThread c x ys) = insert x (set ys)"
  by (induction ys) auto

lemma sort_threads_set [simp]: "set (sort_threads ts cmp) = set ts"
  by (induction ts) (simp_all add: sort_threads_def insertThread_set)

lemma children_sortThread:
  "set (children (sortThread t c r)) = (\<lambda>x. sortThread x r r) ` set (children t)"
  by (cases t) simp





subsection \<open>The stable sort of a list of threads\<close>

lemma lessThan_asym: "lessThanPredicate cmp \<Longrightarrow> cmp a b \<Longrightarrow> \<not> cmp b a"
  unfolding lessThanPredicate_def by blast

lemma lessThan_negtrans: "lessThanPredicate cmp \<Longrightarrow> \<not> cmp a b \<Longrightarrow> \<not> cmp b c \<Longrightarrow> \<not> cmp a c"
  unfolding lessThanPredicate_def by blast

lemma compare_le_mayPrecede:
  "lessThanPredicate cmp \<Longrightarrow> (compareThreads cmp x y \<le> 0) = mayPrecede cmp x y"
  by (auto simp: compareThreads_def mayPrecede_def dest: lessThan_asym split: option.splits)

lemma mayPrecede_total:
  "lessThanPredicate cmp \<Longrightarrow> \<not> mayPrecede cmp x y \<Longrightarrow> mayPrecede cmp y x"
  by (auto simp: mayPrecede_def dest: lessThan_asym split: option.splits)

lemma mayPrecede_trans:
  "lessThanPredicate cmp \<Longrightarrow> mayPrecede cmp x y \<Longrightarrow> mayPrecede cmp y z \<Longrightarrow> mayPrecede cmp x z"
  by (auto simp: mayPrecede_def dest: lessThan_negtrans split: option.splits)

lemma sameRank_mayPrecede:
  "lessThanPredicate cmp \<Longrightarrow> sameRank cmp k x \<Longrightarrow> sameRank cmp k y \<Longrightarrow> mayPrecede cmp x y"
  by (auto simp: sameRank_def compareThreads_def mayPrecede_def dest: lessThan_negtrans
      split: option.splits if_splits)

lemma mset_insertThread: "mset (insertThread c x ys) = add_mset x (mset ys)"
  by (induction ys) simp_all

lemma mset_sort_threads: "mset (sort_threads ts cmp) = mset ts"
  by (induction ts) (simp_all add: sort_threads_def mset_insertThread)

lemma sorted_insertThread:
  assumes "lessThanPredicate cmp" "sorted_wrt (mayPrecede cmp) ys"
  shows "sorted_wrt (mayPrecede cmp) (insertThread (compareThreads cmp) x ys)"
  using assms(2)
proof (induction ys)
  case Nil
  then show ?case by simp
next
  case (Cons y ys)
  show ?case
  proof (cases "mayPrecede cmp x y")
    case True
    then have "\<forall>z\<in>set ys. mayPrecede cmp x z"
      using Cons.prems mayPrecede_trans[OF assms(1)] by auto
    with True Cons.prems show ?thesis
      by (simp add: compare_le_mayPrecede[OF assms(1)])
  next
    case False
    then have "mayPrecede cmp y x" by (rule mayPrecede_total[OF assms(1)])
    with False Cons show ?thesis
      by (auto simp: compare_le_mayPrecede[OF assms(1)] insertThread_set)
  qed
qed

lemma sorted_sort_threads:
  "lessThanPredicate cmp \<Longrightarrow> sorted_wrt (mayPrecede cmp) (sort_threads ts cmp)"
proof (induction ts)
  case Nil
  then show ?case by (simp add: sort_threads_def)
next
  case (Cons x xs)
  then have "sorted_wrt (mayPrecede cmp) (foldr (insertThread (compareThreads cmp)) xs [])"
    by (simp add: sort_threads_def)
  from sorted_insertThread[OF Cons.prems this] show ?case
    by (simp add: sort_threads_def)
qed

lemma filter_insertThread:
  assumes "lessThanPredicate cmp"
  shows "filter (sameRank cmp k) (insertThread (compareThreads cmp) x ys)
       = filter (sameRank cmp k) (x # ys)"
proof (induction ys)
  case Nil
  then show ?case by simp
next
  case (Cons y ys)
  show ?case
  proof (cases "mayPrecede cmp x y")
    case True
    then show ?thesis by (simp add: compare_le_mayPrecede[OF assms])
  next
    case False
    then have "\<not> (sameRank cmp k x \<and> sameRank cmp k y)"
      using sameRank_mayPrecede[OF assms] by blast
    with False Cons show ?thesis
      by (auto simp: compare_le_mayPrecede[OF assms])
  qed
qed

lemma stable_sort_threads:
  "lessThanPredicate cmp \<Longrightarrow>
     filter (sameRank cmp k) (sort_threads ts cmp) = filter (sameRank cmp k) ts"
proof (induction ts)
  case Nil
  then show ?case by (simp add: sort_threads_def)
next
  case (Cons x xs)
  have "filter (sameRank cmp k) (sort_threads (x # xs) cmp)
      = filter (sameRank cmp k) (x # sort_threads xs cmp)"
    using filter_insertThread[OF Cons.prems] by (simp add: sort_threads_def)
  with Cons show ?case by simp
qed

lemma sortedThread_sortThread:
  "lessThanPredicate cmp \<Longrightarrow> lessThanPredicate replyCmp \<Longrightarrow>
     sortedThread cmp replyCmp (sortThread t cmp replyCmp)"
proof (induction t arbitrary: cmp)
  case (Thread p cs)
  then show ?case by (auto simp: sorted_sort_threads)
qed

lemma annotation_countRepliesAndDepth:
  "annotation (props (countRepliesAndDepth x d)) = annotation (props x)"
  by (simp add: props_countRepliesAndDepth)

lemma mayPrecede_countRepliesAndDepth:
  "mayPrecede cmp (countRepliesAndDepth x d) (countRepliesAndDepth y e) = mayPrecede cmp x y"
  unfolding mayPrecede_def annotation_countRepliesAndDepth by (rule refl)

lemma sortedThread_countRepliesAndDepth:
  "sortedThread cmp replyCmp t \<Longrightarrow> sortedThread cmp replyCmp (countRepliesAndDepth t d)"
proof (induction t arbitrary: cmp d)
  case (Thread p cs)
  then show ?case
    by (auto simp: Let_def sorted_wrt_map mayPrecede_countRepliesAndDepth)
qed

lemma sortedThread_setTotalChildren:
  "sortedThread cmp replyCmp t \<Longrightarrow> sortedThread cmp replyCmp (setTotalChildren t)"
  by (cases t) (simp add: setTotalChildren_def)

lemma lessThan_tag: "lessThanPredicate (\<lambda>a b. tag a < tag b)"
  by (auto simp: lessThanPredicate_def)

lemma lessThan_created: "lessThanPredicate (\<lambda>a b. created a < created b)"
  by (auto simp: lessThanPredicate_def)

lemma tags_b_a_sorted:
  assumes "tag x = ''b''" "tag y = ''a''" "parentsOf x = []" "parentsOf y = []"
    "annotationId x \<noteq> annotationId y"
    "annotationId x \<noteq> ''__proto__''" "annotationId y \<noteq> ''__proto__''"
  shows "\<exists>t. buildThread (Suc fuel) [x, y] defaultOpts = Inr t
      \<and> map (\<lambda>c. annotation (props c)) (children t) = [Some y, Some x]"
  using assms
  by (simp add: buildThread_def threadAnnotations_def linkedThreads_def getThread_def
        truthy_simps setParent.simps pass_defs)

subsection \<open>The bound on the recursion\<close>

text \<open>
  The bound only cuts runs short: a run that ends within the bound, with a tree or with
  a \<^verbatim>\<open>TypeError\<close>, ends the same way under every larger bound.
\<close>

lemma hasPathToRoot_more_fuel:
  "hasPathToRoot n ths i a \<noteq> Inl OutOfFuel \<Longrightarrow> hasPathToRoot (n + k) ths i a = hasPathToRoot n ths i a"
  by (induction n ths i a rule: hasPathToRoot.induct)
     (auto split: property.splits option.splits)

lemma setParent_more_fuel:
  "setParent n ths i ps \<noteq> Inl OutOfFuel \<Longrightarrow> setParent (n + k) ths i ps = setParent n ths i ps"
proof (induction n ths i ps rule: setParent.induct)
  case (1 fuel ths i parents)
  show ?case
  proof (cases "getThread ths i")
    case (Own t)
    show ?thesis
    proof (cases "truthy (parent t) \<or> parents = []")
      case True
      with Own show ?thesis by (simp add: setParent.simps)
    next
      case False
      define ths0 where "ths0 = AList.update (last parents) (DEFAULT_THREAD_STATE (last parents) None) ths"
      define inner where "inner f = (case getThread ths (last parents) of
                     Undefined \<Rightarrow> setParent f ths0 (last parents) (butlast parents)
                   | _ \<Rightarrow> Inr ths)" for f
      have unfold: "setParent f ths i parents =
          (case inner f of
               Inl e \<Rightarrow> Inl e
             | Inr ths1 \<Rightarrow>
                 (case hasPathToRoot f ths1 i (last parents) of
                    Inl e \<Rightarrow> Inl e
                  | Inr ok \<Rightarrow> if ok then attach ths1 i (last parents) else Inr ths1))" for f
        using Own False unfolding inner_def ths0_def
        by (simp add: setParent.simps[of f ths i parents])
      have inner_ne: "inner fuel \<noteq> Inl OutOfFuel"
        using "1.prems" unfolding unfold by (auto split: sum.splits)
      have inner_eq: "inner (fuel + k) = inner fuel"
      proof (cases "getThread ths (last parents)")
        case Undefined
        then have "setParent fuel ths0 (last parents) (butlast parents) \<noteq> Inl OutOfFuel"
          using inner_ne by (simp add: inner_def)
        from "1.IH"[OF Own False Undefined this[unfolded ths0_def]]
        show ?thesis using Undefined by (simp add: inner_def ths0_def)
      qed (simp_all add: inner_def)
      show ?thesis
      proof (cases "inner fuel")
        case (Inl e)
        then show ?thesis using inner_eq by (simp add: unfold)
      next
        case (Inr ths1)
        then have "hasPathToRoot fuel ths1 i (last parents) \<noteq> Inl OutOfFuel"
          using "1.prems" unfolding unfold by (auto split: sum.splits)
        from hasPathToRoot_more_fuel[OF this] Inr inner_eq show ?thesis
          by (simp add: unfold)
      qed
    qed
  qed (simp_all add: setParent.simps)
qed

lemma linkThreads_more_fuel:
  "linkThreads n ths as \<noteq> Inl OutOfFuel \<Longrightarrow> linkThreads (n + k) ths as = linkThreads n ths as"
proof (induction as arbitrary: ths)
  case Nil
  then show ?case by simp
next
  case (Cons a as)
  then have "setParent n ths (annotationId a) (parentsOf a) \<noteq> Inl OutOfFuel"
    by (auto split: sum.splits)
  from setParent_more_fuel[OF this] Cons show ?case
    by (auto split: sum.splits)
qed

lemma mapE_more_fuel:
  "(\<And>x. x \<in> set xs \<Longrightarrow> f x \<noteq> Inl OutOfFuel \<Longrightarrow> g x = f x) \<Longrightarrow>
     mapE f xs \<noteq> Inl OutOfFuel \<Longrightarrow> mapE g xs = mapE f xs"
proof (induction xs)
  case Nil
  then show ?case by simp
next
  case (Cons x xs)
  from Cons.prems(2) have fx: "f x \<noteq> Inl OutOfFuel" by (auto split: sum.splits)
  with Cons.prems(1) have gx: "g x = f x" by simp
  show ?case
  proof (cases "f x")
    case (Inl e)
    with gx show ?thesis by simp
  next
    case (Inr y)
    with Cons.prems(2) have "mapE f xs \<noteq> Inl OutOfFuel" by (auto split: sum.splits)
    with Cons.IH Cons.prems(1) have "mapE g xs = mapE f xs" by simp
    with gx Inr show ?thesis by simp
  qed
qed

lemma resolve_more_fuel:
  "resolve n ths x \<noteq> Inl OutOfFuel \<Longrightarrow> resolve (n + k) ths x = resolve n ths x"
proof (induction n arbitrary: x)
  case 0
  then show ?case by simp
next
  case (Suc n)
  show ?case
  proof (cases "map_of ths x")
    case None
    then show ?thesis by simp
  next
    case (Some t)
    with Suc.prems have "mapE (resolve n ths) (childrenRefs t) \<noteq> Inl OutOfFuel"
      by (auto split: sum.splits)
    then have "mapE (resolve (n + k) ths) (childrenRefs t) = mapE (resolve n ths) (childrenRefs t)"
      by (rule mapE_more_fuel[rotated]) (rule Suc.IH)
    with Some show ?thesis by simp
  qed
qed

lemma buildThread_more_fuel:
  assumes "buildThread n annotations opts \<noteq> Inl OutOfFuel"
  shows "buildThread (n + k) annotations opts = buildThread n annotations opts"
proof -
  from assms have l: "linkedThreads n annotations \<noteq> Inl OutOfFuel"
    by (auto simp: buildThread_def threadAnnotations_def split: sum.splits)
  then have l': "linkedThreads (n + k) annotations = linkedThreads n annotations"
    using linkThreads_more_fuel by (auto simp: linkedThreads_def split: sum.splits)
  show ?thesis
  proof (cases "linkedThreads n annotations")
    case (Inl e)
    with l' show ?thesis by (simp add: buildThread_def threadAnnotations_def)
  next
    case (Inr ths1)
    with assms have "mapE (resolve n (collapseRoots ths1)) (rootThreadIds ths1) \<noteq> Inl OutOfFuel"
      by (auto simp: buildThread_def threadAnnotations_def split: sum.splits)
    then have "mapE (resolve (n + k) (collapseRoots ths1)) (rootThreadIds ths1)
        = mapE (resolve n (collapseRoots ths1)) (rootThreadIds ths1)"
      by (rule mapE_more_fuel[rotated]) (rule resolve_more_fuel)
    with Inr l' show ?thesis by (simp add: buildThread_def threadAnnotations_def)
  qed
qed

subsection \<open>Parent links and children lists\<close>

text \<open>
  As long as no reference is the empty string, \<^verbatim>\<open>setParent\<close> assigns a parent only to a
  thread that has none and is in no \<^verbatim>\<open>children\<close> list, and pushes it to the children of
  that parent in the same step; the passes of \<^verbatim>\<open>buildThread\<close> change neither ids nor
  parents.
\<close>

lemma consistentD:
  assumes "consistent ths" "map_of ths k = Some t"
  shows "id_thr t = k" "parent t \<noteq> Some []"
    "c \<in> set (childrenRefs t) \<Longrightarrow> \<exists>tc. map_of ths c = Some tc \<and> parent tc = Some k"
  using assms unfolding consistent_def by blast+

lemma consistent_placeholder:
  assumes "consistent ths" "map_of ths q = None"
  shows "consistent (AList.update q (DEFAULT_THREAD_STATE q None) ths)"
  unfolding consistent_def
proof (intro allI impI)
  fix k t
  assume kt: "map_of (AList.update q (DEFAULT_THREAD_STATE q None) ths) k = Some t"
  show "id_thr t = k \<and> parent t \<noteq> Some []
        \<and> (\<forall>c\<in>set (childrenRefs t). \<exists>tc. map_of (AList.update q (DEFAULT_THREAD_STATE q None) ths) c = Some tc \<and> parent tc = Some k)"
  proof (cases "k = q")
    case True
    with kt have "t = DEFAULT_THREAD_STATE q None" by (simp add: map_of_update_same)
    with True show ?thesis by (simp add: DEFAULT_THREAD_STATE_def)
  next
    case False
    with kt have old: "map_of ths k = Some t" by (simp add: map_of_update_other)
    have "\<exists>tc. map_of (AList.update q (DEFAULT_THREAD_STATE q None) ths) c = Some tc \<and> parent tc = Some k"
      if "c \<in> set (childrenRefs t)" for c
    proof -
      from consistentD(3)[OF assms(1) old that]
      obtain tc where "map_of ths c = Some tc" "parent tc = Some k" by blast
      moreover from this assms(2) have "c \<noteq> q" by auto
      ultimately show ?thesis by (simp add: map_of_update_other)
    qed
    with consistentD(1,2)[OF assms(1) old] show ?thesis by blast
  qed
qed

lemma attach_lookup:
  assumes "attach ths i q = Inr ths'"
  shows "map_of ths' x =
      map_option (\<lambda>t. t\<lparr>parent := (if x = i then Some q else parent t),
                        childrenRefs := (if x = q then childrenRefs t @ [i] else childrenRefs t)\<rparr>)
        (map_of ths x)"
  using assms
  by (auto simp: attach_def getThread_def Let_def AList.update_conv' option.map_ident
      split: option.splits if_splits property.splits)

lemma consistent_attach:
  assumes c: "consistent ths" and a: "attach ths i q = Inr ths'"
    and i: "map_of ths i = Some ti" "parent ti = None" and q: "q \<noteq> []"
  shows "consistent ths'"
  unfolding consistent_def
proof (intro allI impI)
  fix k t
  assume "map_of ths' k = Some t"
  then obtain t0 where t0: "map_of ths k = Some t0"
    and t: "t = t0\<lparr>parent := (if k = i then Some q else parent t0),
                   childrenRefs := (if k = q then childrenRefs t0 @ [i] else childrenRefs t0)\<rparr>"
    unfolding attach_lookup[OF a] by auto
  have qi: "\<exists>tq. map_of ths q = Some tq"
    using a by (auto simp: attach_def getThread_def Let_def AList.update_conv'
        split: option.splits if_splits property.splits)
  have kid: "\<exists>tc. map_of ths' x = Some tc \<and> parent tc = Some k" if "x \<in> set (childrenRefs t)" for x
  proof (cases "x = i \<and> k = q")
    case True
    with i show ?thesis unfolding attach_lookup[OF a] by simp
  next
    case False
    with that t have "x \<in> set (childrenRefs t0)" by (auto split: if_splits)
    from consistentD(3)[OF c t0 this]
    obtain tc where tc: "map_of ths x = Some tc" "parent tc = Some k" by blast
    with i have "x \<noteq> i" by auto
    with tc show ?thesis unfolding attach_lookup[OF a] by simp
  qed
  from consistentD(1,2)[OF c t0] t q kid
  show "id_thr t = k \<and> parent t \<noteq> Some []
        \<and> (\<forall>c\<in>set (childrenRefs t). \<exists>tc. map_of ths' c = Some tc \<and> parent tc = Some k)"
    by auto
qed


lemma consistent_setParent:
  "setParent fuel ths i ps = Inr ths' \<Longrightarrow> consistent ths \<Longrightarrow> [] \<notin> set ps \<Longrightarrow> consistent ths'"
proof (induction fuel ths i ps arbitrary: ths' rule: setParent.induct)
  case (1 fuel ths i parents)
  show ?case
  proof (cases "getThread ths i")
    case (Own ti)
    then have ti: "map_of ths i = Some ti" by (simp add: getThread_Own)
    show ?thesis
    proof (cases "truthy (parent ti) \<or> parents = []")
      case True
      with Own "1.prems" show ?thesis by (simp add: setParent.simps)
    next
      case False
      define q where "q = last parents"
      have "last parents \<in> set parents" using False by simp
      with "1.prems"(3) have q: "q \<noteq> []" unfolding q_def by metis
      have none: "parent ti = None"
        using False consistentD(2)[OF "1.prems"(2) ti] by (cases "parent ti") (auto simp: truthy_simps)
      define ths0 where "ths0 = AList.update q (DEFAULT_THREAD_STATE q None) ths"
      from "1.prems"(1) obtain ths1 ok
        where inner: "(case getThread ths q of
                     Undefined \<Rightarrow> setParent fuel ths0 q (butlast parents)
                   | _ \<Rightarrow> Inr ths) = Inr ths1"
        and last: "(if ok then attach ths1 i q else Inr ths1) = Inr ths'"
        using Own False unfolding ths0_def q_def
        by (auto simp: setParent.simps[of fuel ths i parents] split: sum.splits)
      have mid: "consistent ths1 \<and> (\<exists>t1. map_of ths1 i = Some t1 \<and> parent t1 = None)"
      proof (cases "getThread ths q")
        case Undefined
        then have qn: "map_of ths q = None" by (rule getThread_Undefined)
        with ti have iq: "i \<noteq> q" by auto
        have run: "setParent fuel ths0 q (butlast parents) = Inr ths1"
          using inner Undefined by simp
        have c0: "consistent ths0"
          unfolding ths0_def by (rule consistent_placeholder[OF "1.prems"(2) qn])
        have nb: "[] \<notin> set (butlast parents)"
          using "1.prems"(3) by (auto dest: in_set_butlastD)
        have "consistent ths1"
          using "1.IH"[OF Own False Undefined[unfolded q_def], folded q_def,
              OF run[unfolded ths0_def] c0[unfolded ths0_def] nb] .
        moreover have "map_of ths0 i = Some ti"
          using ti iq by (simp add: ths0_def map_of_update_other)
        from setParent_keeps[OF run this] iq none
        have "\<exists>t1. map_of ths1 i = Some t1 \<and> parent t1 = None" by auto
        ultimately show ?thesis by blast
      next
        case (Own tq)
        with inner "1.prems"(2) ti none show ?thesis by auto
      next
        case Inherited
        with inner "1.prems"(2) ti none show ?thesis by auto
      qed
      show ?thesis
      proof (cases ok)
        case True
        with last have "attach ths1 i q = Inr ths'" by simp
        with mid q show ?thesis by (auto intro: consistent_attach)
      next
        case False
        with last mid show ?thesis by auto
      qed
    qed
  next
    case Inherited
    with "1.prems" show ?thesis by (simp add: setParent.simps)
  next
    case Undefined
    with "1.prems" show ?thesis by (simp add: setParent.simps)
  qed
qed

lemma consistent_linkThreads:
  "linkThreads fuel ths as = Inr ths' \<Longrightarrow> consistent ths \<Longrightarrow>
     \<forall>a\<in>set as. [] \<notin> set (parentsOf a) \<Longrightarrow> consistent ths'"
proof (induction as arbitrary: ths)
  case Nil
  then show ?case by simp
next
  case (Cons a as)
  from Cons.prems(1) obtain ths1 where 1: "setParent fuel ths (annotationId a) (parentsOf a) = Inr ths1"
    and 2: "linkThreads fuel ths1 as = Inr ths'"
    by (auto split: sum.splits)
  from consistent_setParent[OF 1 Cons.prems(2)] Cons.prems(3) have "consistent ths1" by simp
  from Cons.IH[OF 2 this] Cons.prems(3) show ?case by simp
qed

lemma fresh_createThreads:
  "createThreads ths as = Inr ths' \<Longrightarrow> fresh ths \<Longrightarrow> fresh ths'"
proof (induction as arbitrary: ths)
  case Nil
  then show ?case by simp
next
  case (Cons a as)
  let ?k = "annotationId a"
  have "fresh (AList.update ?k (DEFAULT_THREAD_STATE ?k (Some a)) ths)"
    using Cons.prems(2)
    by (auto simp: fresh_def AList.update_conv' DEFAULT_THREAD_STATE_def split: if_splits)
  with Cons show ?case by (auto split: if_splits)
qed

lemma consistent_linkedThreads:
  assumes "linkedThreads fuel as = Inr ths" "\<forall>a\<in>set as. [] \<notin> set (parentsOf a)"
  shows "consistent ths"
proof -
  from assms(1) obtain ths0 where 0: "createThreads [] as = Inr ths0"
    and 1: "linkThreads fuel ths0 as = Inr ths"
    by (auto simp: linkedThreads_def split: sum.splits)
  have "fresh []" by (simp add: fresh_def)
  from fresh_createThreads[OF 0 this] have "consistent ths0"
    by (auto simp: fresh_def consistent_def)
  from consistent_linkThreads[OF 1 this assms(2)] show ?thesis .
qed

lemma map_of_collapseRoots:
  "map_of (collapseRoots ths) k =
     map_option (\<lambda>t. if \<not> truthy (parent t) then t\<lparr>collapsed := True\<rparr> else t) (map_of ths k)"
  by (simp add: collapseRoots_def map_of_map)

lemma consistent_collapseRoots:
  assumes "consistent ths"
  shows "consistent (collapseRoots ths)"
  unfolding consistent_def
proof (intro allI impI)
  fix k t
  let ?g = "\<lambda>t. if \<not> truthy (parent t) then t\<lparr>collapsed := True\<rparr> else t"
  have g: "id_thr (?g x) = id_thr x" "parent (?g x) = parent x"
    "childrenRefs (?g x) = childrenRefs x" for x :: thread_obj
    by simp_all
  assume "map_of (collapseRoots ths) k = Some t"
  then obtain t0 where t0: "map_of ths k = Some t0" "t = ?g t0"
    unfolding map_of_collapseRoots by auto
  have "\<exists>tc. map_of (collapseRoots ths) c = Some tc \<and> parent tc = Some k"
    if "c \<in> set (childrenRefs t)" for c
  proof -
    from that t0(2) have "c \<in> set (childrenRefs t0)" by (simp only: g)
    from consistentD(3)[OF assms t0(1) this]
    obtain tc where "map_of ths c = Some tc" "parent tc = Some k" by blast
    then have "map_of (collapseRoots ths) c = Some (?g tc) \<and> parent (?g tc) = Some k"
      unfolding map_of_collapseRoots by simp
    then show ?thesis by blast
  qed
  with consistentD(1,2)[OF assms t0(1)] t0(2)
  show "id_thr t = k \<and> parent t \<noteq> Some []
        \<and> (\<forall>c\<in>set (childrenRefs t). \<exists>tc. map_of (collapseRoots ths) c = Some tc \<and> parent tc = Some k)"
    by (simp only: g) blast
qed

lemma mapE_Inr:
  "mapE f xs = Inr ys \<Longrightarrow> y \<in> set ys \<Longrightarrow> \<exists>x\<in>set xs. f x = Inr y"
  by (induction xs arbitrary: ys) (auto split: sum.splits)

lemma linked_resolve:
  "resolve n ths k = Inr T \<Longrightarrow> consistent ths \<Longrightarrow>
     linked T \<and> (\<exists>t. map_of ths k = Some t \<and> props T = thread_props.truncate t)"
proof (induction n arbitrary: k T)
  case 0
  then show ?case by simp
next
  case (Suc n)
  from Suc.prems(1) obtain t cs where t: "map_of ths k = Some t"
    and cs: "mapE (resolve n ths) (childrenRefs t) = Inr cs"
    and T: "T = Thread (thread_props.truncate t) cs"
    by (auto split: option.splits sum.splits)
  have "parent (props c) = Some (id_thr (thread_props.truncate t)) \<and> linked c" if "c \<in> set cs" for c
  proof -
    from mapE_Inr[OF cs that] obtain x where x: "x \<in> set (childrenRefs t)" "resolve n ths x = Inr c"
      by blast
    from Suc.IH[OF x(2) Suc.prems(2)] obtain tx where tx: "linked c" "map_of ths x = Some tx"
        "props c = thread_props.truncate tx" by blast
    from consistentD(3)[OF Suc.prems(2) t x(1)] tx(2) have "parent tx = Some k" by simp
    moreover from consistentD(1)[OF Suc.prems(2) t] have "id_thr t = k" .
    ultimately show ?thesis using tx by (simp add: thread_props.truncate_def)
  qed
  with t T show ?case by simp
qed

lemma topLinked_threadAnnotations:
  assumes "threadAnnotations fuel as = Inr t" "\<forall>a\<in>set as. [] \<notin> set (parentsOf a)"
  shows "topLinked t"
proof -
  from assms(1) obtain ths cs where ths: "linkedThreads fuel as = Inr ths"
    and cs: "mapE (resolve fuel (collapseRoots ths)) (rootThreadIds ths) = Inr cs"
    and t: "t = Thread rootProps cs"
    by (auto simp: threadAnnotations_def split: sum.splits)
  have c: "consistent ths" by (rule consistent_linkedThreads[OF ths assms(2)])
  then have cc: "consistent (collapseRoots ths)" by (rule consistent_collapseRoots)
  have "parent (props x) = None \<and> linked x" if "x \<in> set cs" for x
  proof -
    from mapE_Inr[OF cs that] obtain k where k: "k \<in> set (rootThreadIds ths)"
        "resolve fuel (collapseRoots ths) k = Inr x"
      by blast
    from linked_resolve[OF k(2) cc] obtain tk where tk: "linked x"
        "map_of (collapseRoots ths) k = Some tk" "props x = thread_props.truncate tk" by blast
    from k(1) obtain t0 where t0: "map_of ths k = Some t0" "\<not> truthy (parent t0)"
      by (auto simp: rootThreadIds_def isRoot_def split: option.splits)
    with consistentD(2)[OF c t0(1)] have "parent t0 = None"
      by (cases "parent t0") (auto simp: truthy_simps)
    with tk t0 show ?thesis
      by (auto simp: map_of_collapseRoots thread_props.truncate_def)
  qed
  with t show ?thesis by (simp add: topLinked_def)
qed


lemma linked_mapThread:
  assumes g: "\<And>x. id_thr (props (g x)) = id_thr (props x) \<and> parent (props (g x)) = parent (props x)"
  shows "linked t \<Longrightarrow> linked (mapThread t g)"
proof (induction t)
  case (Thread p cs)
  have "parent (props (mapThread c g)) = Some (id_thr (props (g (Thread p cs)))) \<and> linked (mapThread c g)"
    if "c \<in> set cs" for c
    using that Thread g[of c] g[of "Thread p cs"] by (simp add: props_mapThread)
  then show ?case by simp
qed

lemma linked_sortThread: "linked t \<Longrightarrow> linked (sortThread t c r)"
proof (induction t arbitrary: c)
  case (Thread p cs)
  then show ?case by (auto simp: props_sortThread)
qed

lemma parent_countRepliesAndDepth [simp]:
  "parent (props (countRepliesAndDepth t d)) = parent (props t)"
  "id_thr (props (countRepliesAndDepth t d)) = id_thr (props t)"
  by (simp_all add: props_countRepliesAndDepth)

lemma linked_countRepliesAndDepth: "linked t \<Longrightarrow> linked (countRepliesAndDepth t d)"
proof (induction t arbitrary: d)
  case (Thread p cs)
  then show ?case by (auto simp: Let_def)
qed

lemma topLinked_setChildren_filter:
  "topLinked t \<Longrightarrow> topLinked (setChildren t (filter P (children t)))"
  by (simp add: topLinked_def)

lemma topLinked_mapThread:
  assumes g: "\<And>x. id_thr (props (g x)) = id_thr (props x) \<and> parent (props (g x)) = parent (props x)"
  shows "topLinked t \<Longrightarrow> topLinked (mapThread t g)"
  using g linked_mapThread[of g, OF g]
  by (auto simp: topLinked_def children_mapThread props_mapThread)

lemma topLinked_sortThread: "topLinked t \<Longrightarrow> topLinked (sortThread t c r)"
  by (auto simp: topLinked_def children_sortThread props_sortThread linked_sortThread)

lemma topLinked_countRepliesAndDepth: "topLinked t \<Longrightarrow> topLinked (countRepliesAndDepth t d)"
  by (auto simp: topLinked_def children_countRepliesAndDepth linked_countRepliesAndDepth)

lemma topLinked_project: "topLinked t \<Longrightarrow> topLinked (project opts t)"
proof -
  assume t: "topLinked t"
  have v: "id_thr (props (setVisible opts x)) = id_thr (props x)
      \<and> parent (props (setVisible opts x)) = parent (props x)" for x
    by (simp add: setVisible_def)
  have c: "id_thr (props (setCollapsed opts x)) = id_thr (props x)
      \<and> parent (props (setCollapsed opts x)) = parent (props x)" for x
    by (simp add: setCollapsed_def)
  have 1: "topLinked (selectThreads opts t)"
    using t by (simp add: selectThreads_def topLinked_setChildren_filter)
  then have 2: "topLinked (filterThreads opts (selectThreads opts t))"
    by (simp add: filterThreads_def topLinked_setChildren_filter split: option.split)
  note 3 = topLinked_mapThread[of "setVisible opts", OF v 2]
  then have 4: "topLinked (pruneInvisible (mapThread (filterThreads opts (selectThreads opts t)) (setVisible opts)))"
    unfolding pruneInvisible_def by (rule topLinked_setChildren_filter)
  note 5 = topLinked_mapThread[of "setCollapsed opts", OF c 4]
  note 6 = topLinked_sortThread[OF 5, of "sortCompareFn opts" "replySortCompareFn opts"]
  note 7 = topLinked_countRepliesAndDepth[OF 6, of "- 1"]
  then show ?thesis
    by (simp add: project_def Let_def setTotalChildren_def topLinked_def)
qed

lemma linked_subthreads:
  "linked t \<Longrightarrow> n \<in> set (subthreads t) \<Longrightarrow> c \<in> set (children n) \<Longrightarrow>
     parent (props c) = Some (threadId n)"
proof (induction t)
  case (Thread p cs)
  from Thread.prems(2) consider "n = Thread p cs"
    | x where "x \<in> set cs" "n \<in> set (subthreads x)"
    by (auto simp: subthreads_Thread)
  then show ?case
  proof cases
    case 1
    with Thread.prems show ?thesis by (simp add: threadId_def)
  next
    case 2
    with Thread show ?thesis by auto
  qed
qed

lemma parent_links_agree:
  assumes "\<forall>a\<in>set annotations. [] \<notin> set (parentsOf a)"
    and "buildThread fuel annotations opts = Inr t"
  shows "(\<forall>c\<in>set (children t). parent (props c) = None)
       \<and> (\<forall>n\<in>set (descendants t). \<forall>c\<in>set (children n). parent (props c) = Some (threadId n))"
proof -
  from assms(2) obtain t0 where t0: "threadAnnotations fuel annotations = Inr t0"
    and t: "t = project opts t0"
    by (auto simp: buildThread_def split: sum.splits if_splits)
  have top: "topLinked t"
    unfolding t by (rule topLinked_project[OF topLinked_threadAnnotations[OF t0 assms(1)]])
  have "parent (props c) = Some (threadId n)"
    if "n \<in> set (descendants t)" "c \<in> set (children n)" for n c
  proof -
    from that(1) obtain x where x: "x \<in> set (children t)" "n \<in> set (subthreads x)"
      by (cases t) (auto simp: subthreads_def[abs_def])
    with top have "linked x" by (simp add: topLinked_def)
    from linked_subthreads[OF this x(2) that(2)] show ?thesis .
  qed
  with top show ?thesis by (auto simp: topLinked_def)
qed

subsection \<open>Inputs on which \<^verbatim>\<open>buildThread\<close> returns\<close>

text \<open>
  When no reference list (after the filter of \<^verbatim>\<open>threadAnnotations\<close>) repeats an id, holds
  the annotation's own identity, the empty string or the name of a property of
  \<^verbatim>\<open>Object.prototype\<close>, every attachment leaves all parent chains finite: \<^verbatim>\<open>hasPathToRoot\<close>
  returns, and a thread is attached only below a thread whose chain does not pass through
  it. So \<^verbatim>\<open>buildThread\<close> returns a tree, whatever the references name otherwise (missing
  threads, each other), unless \<^verbatim>\<open>expanded\<close> hides \<^verbatim>\<open>hasOwnProperty\<close>.
\<close>

lemma level_own: "level ths k n \<Longrightarrow> \<exists>t. map_of ths k = Some t"
  by (cases rule: level.cases) auto

lemma level_unique: "level ths k n \<Longrightarrow> level ths k m \<Longrightarrow> n = m"
proof (induction arbitrary: m rule: level.induct)
  case (top k t)
  from top.prems top.hyps show ?case by (cases rule: level.cases) auto
next
  case (below k t q n)
  from below.prems below.hyps(1,2) obtain m' where "m = Suc m'" "level ths q m'"
    by (cases rule: level.cases) auto
  with below.IH show ?case by simp
qed

lemma hasPathToRoot_returns:
  "level ths a n \<Longrightarrow> consistent ths \<Longrightarrow> n < f \<Longrightarrow> \<exists>b. hasPathToRoot f ths i a = Inr b"
proof (induction arbitrary: f rule: level.induct)
  case (top k t)
  then obtain f' where "f = Suc f'" by (cases f) auto
  with top show ?case by (auto simp: getThread_def)
next
  case (below k t q n)
  then obtain f' where f: "f = Suc f'" "n < f'" by (cases f) auto
  from consistentD(2)[OF below.prems(1) below.hyps(1)] below.hyps(2) have "q \<noteq> []" by auto
  with below.IH[OF below.prems(1) f(2)] below.hyps(1,2) f(1) show ?case
    by (auto simp: getThread_def)
qed

lemma hasPathToRoot_avoids:
  "level ths q n \<Longrightarrow> consistent ths \<Longrightarrow> q \<noteq> i \<Longrightarrow> hasPathToRoot f ths i q = Inr True
     \<Longrightarrow> levelAvoiding ths i q n"
proof (induction arbitrary: f rule: level.induct)
  case (top k t)
  then show ?case by (auto intro: levelAvoiding.top)
next
  case (below k t q n)
  from consistentD(2)[OF below.prems(1) below.hyps(1)] below.hyps(2) have q: "q \<noteq> []" by auto
  from below.prems(3) obtain f' where f: "f = Suc f'" by (cases f) auto
  from below.prems(3) below.hyps(1,2) q have "q \<noteq> i" "hasPathToRoot f' ths i q = Inr True"
    unfolding f by (auto simp: getThread_def split: if_splits)
  from below.IH[OF below.prems(1) this] below.hyps(1,2) below.prems(2) show ?case
    by (auto intro: levelAvoiding.below)
qed

lemma level_placeholder:
  "level ths k n \<Longrightarrow> map_of ths q = None \<Longrightarrow> level (AList.update q v ths) k n"
proof (induction rule: level.induct)
  case (top k t)
  then have "k \<noteq> q" by auto
  with top show ?case by (auto intro!: level.top simp: map_of_update_other)
next
  case (below k t p n)
  then have "k \<noteq> q" by auto
  with below show ?case by (auto intro!: level.below simp: map_of_update_other)
qed

lemma rooted_placeholder:
  assumes "rooted ths" "map_of ths q = None"
  shows "rooted (AList.update q (DEFAULT_THREAD_STATE q None) ths)"
  unfolding rooted_def
proof (intro allI impI)
  fix k t
  assume kt: "map_of (AList.update q (DEFAULT_THREAD_STATE q None) ths) k = Some t"
  show "\<exists>n. level (AList.update q (DEFAULT_THREAD_STATE q None) ths) k n"
  proof (cases "k = q")
    case True
    have "level (AList.update q (DEFAULT_THREAD_STATE q None) ths) q 0"
      by (rule level.top[where t = "DEFAULT_THREAD_STATE q None"])
         (simp_all add: map_of_update_same DEFAULT_THREAD_STATE_def)
    with True show ?thesis by blast
  next
    case False
    with kt have "map_of ths k = Some t" by (simp add: map_of_update_other)
    with assms(1) obtain n where "level ths k n" unfolding rooted_def by blast
    from level_placeholder[OF this assms(2)] show ?thesis by blast
  qed
qed

lemma levelAvoiding_attach:
  assumes a: "attach ths i q = Inr ths'"
  shows "levelAvoiding ths i k n \<Longrightarrow> level ths' k n"
proof (induction rule: levelAvoiding.induct)
  case (top k t)
  then show ?case
    by (auto intro!: level.top simp: attach_lookup[OF a])
next
  case (below k t p n)
  then show ?case
    by (auto intro!: level.below simp: attach_lookup[OF a])
qed

lemma rooted_attach:
  assumes r: "rooted ths" and a: "attach ths i q = Inr ths'"
    and i: "map_of ths i = Some ti" "parent ti = None"
    and q: "levelAvoiding ths i q n"
  shows "rooted ths'"
proof -
  have q': "level ths' q n" by (rule levelAvoiding_attach[OF a q])
  have step: "level ths k m \<Longrightarrow> \<exists>m'. level ths' k m'" for k m
  proof (induction rule: level.induct)
    case (top k t)
    show ?case
    proof (cases "k = i")
      case True
      obtain ti' where ti': "map_of ths' i = Some ti'" "parent ti' = Some q"
        by (simp add: attach_lookup[OF a] i)
      have "level ths' i (Suc n)"
        by (rule level.below[OF ti' q'])
      with True show ?thesis by blast
    next
      case False
      with top have "level ths' k 0"
        by (auto intro!: level.top simp: attach_lookup[OF a])
      then show ?thesis by blast
    qed
  next
    case (below k t p m)
    then obtain m' where m': "level ths' p m'" by blast
    from below.hyps(1,2) i have "k \<noteq> i" by auto
    with below.hyps(1,2) have "level ths' k (Suc m')"
      by (auto intro!: level.below[OF _ _ m'] simp: attach_lookup[OF a])
    then show ?case by blast
  qed
  show ?thesis
    unfolding rooted_def
  proof (intro allI impI)
    fix k t
    assume "map_of ths' k = Some t"
    then obtain t0 where "map_of ths k = Some t0"
      unfolding attach_lookup[OF a] by auto
    with r obtain m where "level ths k m" unfolding rooted_def by blast
    from step[OF this] show "\<exists>n. level ths' k n" .
  qed
qed


lemma attach_returns:
  assumes "map_of ths i = Some ti" "map_of ths q = Some tq"
  shows "\<exists>ths'. attach ths i q = Inr ths'"
  using assms
  by (auto simp: attach_def getThread_def Let_def AList.update_conv' split: option.splits)

lemma setParent_returns:
  "consistent ths \<Longrightarrow> rooted ths \<Longrightarrow> map_of ths i = Some ti \<Longrightarrow> i \<notin> set ps \<Longrightarrow> distinct ps
    \<Longrightarrow> [] \<notin> set ps \<Longrightarrow> \<forall>r\<in>set ps. r \<notin> set objectPrototypeProps
    \<Longrightarrow> \<exists>fuel ths'. setParent fuel ths i ps = Inr ths' \<and> consistent ths' \<and> rooted ths'"
proof (induction ps arbitrary: ths i ti rule: rev_induct)
  case Nil
  then have "setParent 0 ths i [] = Inr ths"
    by (simp add: setParent.simps getThread_def)
  with Nil show ?case by blast
next
  case (snoc q xs)
  have own: "getThread ths i = Own ti" using snoc.prems(3) by (simp add: getThread_Own)
  show ?case
  proof (cases "truthy (parent ti)")
    case True
    with own have "setParent 0 ths i (xs @ [q]) = Inr ths"
      by (simp add: setParent.simps)
    with snoc.prems show ?thesis by blast
  next
    case False
    have none: "parent ti = None"
      using False consistentD(2)[OF snoc.prems(1,3)] by (cases "parent ti") (auto simp: truthy_simps)
    have iq: "i \<noteq> q" and q: "q \<noteq> []" and qp: "q \<notin> set objectPrototypeProps"
      using snoc.prems by auto
    define ths0 where "ths0 = AList.update q (DEFAULT_THREAD_STATE q None) ths"
    define inner where "inner f = (case getThread ths q of
                     Undefined \<Rightarrow> setParent f ths0 q xs
                   | _ \<Rightarrow> Inr ths)" for f
    have unfold: "setParent f ths i (xs @ [q]) =
          (case inner f of
               Inl e \<Rightarrow> Inl e
             | Inr ths1 \<Rightarrow>
                 (case hasPathToRoot f ths1 i q of
                    Inl e \<Rightarrow> Inl e
                  | Inr ok \<Rightarrow> if ok then attach ths1 i q else Inr ths1))" for f
      using own False
      unfolding inner_def ths0_def setParent.simps[of f ths i "xs @ [q]"] last_snoc butlast_snoc
      by simp
    have "\<exists>f1 ths1. (\<forall>k. inner (f1 + k) = Inr ths1) \<and> consistent ths1 \<and> rooted ths1
        \<and> (\<exists>t1. map_of ths1 i = Some t1 \<and> parent t1 = None) \<and> (\<exists>tq. map_of ths1 q = Some tq)"
    proof (cases "map_of ths q")
      case (Some tq)
      then have "inner f = Inr ths" for f by (simp add: inner_def getThread_def)
      with snoc.prems(1,2,3) none Some show ?thesis by blast
    next
      case None
      with qp have und: "getThread ths q = Undefined" by (simp add: getThread_def)
      have c0: "consistent ths0" unfolding ths0_def by (rule consistent_placeholder[OF snoc.prems(1) None])
      have r0: "rooted ths0" unfolding ths0_def by (rule rooted_placeholder[OF snoc.prems(2) None])
      have q0: "map_of ths0 q = Some (DEFAULT_THREAD_STATE q None)"
        by (simp add: ths0_def map_of_update_same)
      have i0: "map_of ths0 i = Some ti" using iq snoc.prems(3) by (simp add: ths0_def map_of_update_other)
      from snoc.IH[OF c0 r0 q0] snoc.prems(5,6,7)
      obtain f1 ths1 where run: "setParent f1 ths0 q xs = Inr ths1" and c1: "consistent ths1"
        and r1: "rooted ths1"
        by auto
      have "setParent (f1 + k) ths0 q xs = Inr ths1" for k
        using setParent_more_fuel[of f1 ths0 q xs k] run by simp
      then have "\<forall>k. inner (f1 + k) = Inr ths1" using und by (simp add: inner_def)
      moreover from setParent_keeps[OF run i0] iq none
      have "\<exists>t1. map_of ths1 i = Some t1 \<and> parent t1 = None" by auto
      moreover from setParent_keeps[OF run q0] have "\<exists>tq. map_of ths1 q = Some tq" by auto
      ultimately show ?thesis using c1 r1 by blast
    qed
    then obtain f1 ths1 t1 tq where inner: "\<And>k. inner (f1 + k) = Inr ths1"
      and c1: "consistent ths1" and r1: "rooted ths1"
      and i1: "map_of ths1 i = Some t1" "parent t1 = None" and q1: "map_of ths1 q = Some tq"
      by blast
    from r1 q1 obtain n where n: "level ths1 q n" unfolding rooted_def by blast
    define f where "f = f1 + Suc n"
    from hasPathToRoot_returns[OF n c1, of f i] obtain ok where ok: "hasPathToRoot f ths1 i q = Inr ok"
      by (auto simp: f_def)
    have run: "setParent f ths i (xs @ [q]) = (if ok then attach ths1 i q else Inr ths1)"
      unfolding unfold using inner[of "Suc n"] ok by (simp add: f_def)
    show ?thesis
    proof (cases ok)
      case True
      from attach_returns[OF i1(1) q1] obtain ths' where a: "attach ths1 i q = Inr ths'" by blast
      have "levelAvoiding ths1 i q n"
        using hasPathToRoot_avoids[OF n c1 iq[symmetric]] ok True by simp
      from rooted_attach[OF r1 a i1 this] consistent_attach[OF c1 a i1 q] run True a
      show ?thesis by auto
    next
      case False
      with run c1 r1 show ?thesis by auto
    qed
  qed
qed


lemma linkThreads_returns:
  "consistent ths \<Longrightarrow> rooted ths \<Longrightarrow>
   \<forall>a\<in>set as. (\<exists>t. map_of ths (annotationId a) = Some t)
      \<and> annotationId a \<notin> set (parentsOf a) \<and> distinct (parentsOf a) \<and> [] \<notin> set (parentsOf a)
      \<and> (\<forall>r\<in>set (parentsOf a). r \<notin> set objectPrototypeProps)
   \<Longrightarrow> \<exists>fuel ths'. linkThreads fuel ths as = Inr ths' \<and> consistent ths' \<and> rooted ths'"
proof (induction as arbitrary: ths)
  case Nil
  then show ?case by auto
next
  case (Cons a as)
  from Cons.prems(3) obtain t where t: "map_of ths (annotationId a) = Some t" by auto
  from setParent_returns[OF Cons.prems(1,2) t, of "parentsOf a"] Cons.prems(3)
  obtain f1 ths1 where 1: "setParent f1 ths (annotationId a) (parentsOf a) = Inr ths1"
    and c1: "consistent ths1" and r1: "rooted ths1"
    by auto
  have "\<exists>t. map_of ths1 (annotationId b) = Some t" if "b \<in> set as" for b
  proof -
    from Cons.prems(3) that obtain tb where "map_of ths (annotationId b) = Some tb" by auto
    from setParent_keeps[OF 1 this] show ?thesis by blast
  qed
  with Cons.prems(3) have "\<forall>a\<in>set as. (\<exists>t. map_of ths1 (annotationId a) = Some t)
      \<and> annotationId a \<notin> set (parentsOf a) \<and> distinct (parentsOf a) \<and> [] \<notin> set (parentsOf a)
      \<and> (\<forall>r\<in>set (parentsOf a). r \<notin> set objectPrototypeProps)"
    by simp
  from Cons.IH[OF c1 r1 this]
  obtain f2 ths' where 2: "linkThreads f2 ths1 as = Inr ths'" and c: "consistent ths'" "rooted ths'"
    by blast
  have "setParent (f1 + f2) ths (annotationId a) (parentsOf a) = Inr ths1"
    using setParent_more_fuel[of f1 ths "annotationId a" "parentsOf a" f2] 1 by simp
  moreover have "linkThreads (f2 + f1) ths1 as = Inr ths'"
    using linkThreads_more_fuel[of f2 ths1 as f1] 2 by simp
  ultimately have "linkThreads (f1 + f2) ths (a # as) = Inr ths'"
    by (simp add: add.commute)
  with c show ?case by blast
qed

lemma createThreads_returns:
  "\<forall>a\<in>set as. annotationId a \<noteq> ''__proto__'' \<Longrightarrow>
   \<exists>ths'. createThreads ths as = Inr ths'
     \<and> (\<forall>k. (\<exists>t. map_of ths k = Some t) \<or> k \<in> annotationId ` set as \<longrightarrow> (\<exists>t. map_of ths' k = Some t))"
proof (induction as arbitrary: ths)
  case Nil
  then show ?case by simp
next
  case (Cons a as)
  let ?ths = "AList.update (annotationId a) (DEFAULT_THREAD_STATE (annotationId a) (Some a)) ths"
  from Cons.IH[of ?ths] Cons.prems obtain ths' where 1: "createThreads ?ths as = Inr ths'"
    and 2: "\<forall>k. (\<exists>t. map_of ?ths k = Some t) \<or> k \<in> annotationId ` set as \<longrightarrow> (\<exists>t. map_of ths' k = Some t)"
    by auto
  have "\<exists>t. map_of ths' k = Some t"
    if "(\<exists>t. map_of ths k = Some t) \<or> k \<in> annotationId ` set (a # as)" for k
  proof -
    from that have "(\<exists>t. map_of ?ths k = Some t) \<or> k \<in> annotationId ` set as"
      by (auto simp: AList.update_conv')
    with 2 show ?thesis by blast
  qed
  with 1 Cons.prems show ?case by simp
qed

lemma rooted_fresh: "fresh ths \<Longrightarrow> rooted ths"
  unfolding rooted_def fresh_def by (blast intro: level.top)

lemma level_collapseRoots: "level ths k n \<Longrightarrow> level (collapseRoots ths) k n"
proof (induction rule: level.induct)
  case (top k t)
  then show ?case
    by (auto intro!: level.top simp: map_of_collapseRoots)
next
  case (below k t q n)
  then show ?case
    by (auto intro!: level.below simp: map_of_collapseRoots)
qed

lemma level_bounded: "\<exists>N. \<forall>k n. level ths k n \<longrightarrow> n \<le> N"
proof -
  let ?S = "{n. \<exists>k. level ths k n}"
  have "?S \<subseteq> (\<lambda>k. THE n. level ths k n) ` dom (map_of ths)"
  proof
    fix n assume "n \<in> ?S"
    then obtain k where k: "level ths k n" by blast
    then have "(THE m. level ths k m) = n" by (auto intro: the_equality level_unique)
    moreover from level_own[OF k] have "k \<in> dom (map_of ths)" by auto
    ultimately show "n \<in> (\<lambda>k. THE n. level ths k n) ` dom (map_of ths)" by blast
  qed
  then have "finite ?S" by (rule finite_subset) (simp add: finite_dom_map_of)
  then have "\<forall>n\<in>?S. n \<le> Max ?S" by simp
  then show ?thesis by blast
qed

lemma mapE_returns: "\<forall>x\<in>set xs. \<exists>y. f x = Inr y \<Longrightarrow> \<exists>ys. mapE f xs = Inr ys"
  by (induction xs) auto

lemma resolve_returns:
  "consistent ths \<Longrightarrow> \<forall>k n. level ths k n \<longrightarrow> n \<le> N \<Longrightarrow> level ths k n \<Longrightarrow> N - n < f
     \<Longrightarrow> \<exists>T. resolve f ths k = Inr T"
proof (induction f arbitrary: k n)
  case 0
  then show ?case by simp
next
  case (Suc f)
  from level_own[OF Suc.prems(3)] obtain t where t: "map_of ths k = Some t" by blast
  have "\<exists>T. resolve f ths c = Inr T" if "c \<in> set (childrenRefs t)" for c
  proof -
    from consistentD(3)[OF Suc.prems(1) t that]
    obtain tc where tc: "map_of ths c = Some tc" "parent tc = Some k" by blast
    have l: "level ths c (Suc n)" by (rule level.below[OF tc Suc.prems(3)])
    with Suc.prems(2) have "Suc n \<le> N" by blast
    with Suc.prems(4) have "N - Suc n < f" by arith
    from Suc.IH[OF Suc.prems(1,2) l this] show ?thesis .
  qed
  then have "\<exists>cs. mapE (resolve f ths) (childrenRefs t) = Inr cs"
    by (intro mapE_returns) blast
  with t show ?case by auto
qed

lemma buildThread_returns:
  assumes "\<forall>a\<in>set annotations. annotationId a \<noteq> ''__proto__''
      \<and> annotationId a \<notin> set (parentsOf a) \<and> distinct (parentsOf a) \<and> [] \<notin> set (parentsOf a)
      \<and> (\<forall>r\<in>set (parentsOf a). r \<notin> set objectPrototypeProps)"
    and "expanded opts ''hasOwnProperty'' = None"
  shows "\<exists>fuel t. \<forall>k. buildThread (fuel + k) annotations opts = Inr t"
proof -
  from createThreads_returns[of annotations "[]"] assms(1)
  obtain ths0 where 0: "createThreads [] annotations = Inr ths0"
    and keys: "\<forall>a\<in>set annotations. \<exists>t. map_of ths0 (annotationId a) = Some t"
    by auto
  have "fresh []" by (simp add: fresh_def)
  from fresh_createThreads[OF 0 this] have f0: "fresh ths0" .
  then have c0: "consistent ths0" by (auto simp: fresh_def consistent_def)
  from f0 have r0: "rooted ths0" by (rule rooted_fresh)
  from linkThreads_returns[OF c0 r0, of annotations] keys assms(1)
  obtain f1 ths where 1: "linkThreads f1 ths0 annotations = Inr ths"
    and c: "consistent ths" and r: "rooted ths"
    by auto
  let ?ths = "collapseRoots ths"
  have cc: "consistent ?ths" using c by (rule consistent_collapseRoots)
  obtain N where N: "\<forall>k n. level ?ths k n \<longrightarrow> n \<le> N" using level_bounded by blast
  have "\<exists>T. resolve (Suc N) ?ths k = Inr T" if "k \<in> set (rootThreadIds ths)" for k
  proof -
    from that obtain t where "map_of ths k = Some t"
      by (auto simp: rootThreadIds_def isRoot_def split: option.splits)
    with r obtain n where "level ths k n" unfolding rooted_def by blast
    then have "level ?ths k n" by (rule level_collapseRoots)
    from resolve_returns[OF cc N this, of "Suc N"] show ?thesis by simp
  qed
  then obtain cs where cs: "mapE (resolve (Suc N) ?ths) (rootThreadIds ths) = Inr cs"
    using mapE_returns[of "rootThreadIds ths" "resolve (Suc N) ?ths"] by blast
  define fuel where "fuel = f1 + Suc N"
  have l: "linkThreads fuel ths0 annotations = Inr ths"
    using linkThreads_more_fuel[of f1 ths0 annotations "Suc N"] 1 by (simp add: fuel_def)
  have "mapE (resolve fuel ?ths) (rootThreadIds ths) = mapE (resolve (Suc N) ?ths) (rootThreadIds ths)"
  proof (rule mapE_more_fuel)
    show "mapE (resolve (Suc N) ?ths) (rootThreadIds ths) \<noteq> Inl OutOfFuel" using cs by simp
  next
    fix x assume "resolve (Suc N) ?ths x \<noteq> Inl OutOfFuel"
    from resolve_more_fuel[OF this, of f1] show "resolve fuel ?ths x = resolve (Suc N) ?ths x"
      by (simp add: fuel_def add.commute)
  qed
  with cs have "mapE (resolve fuel ?ths) (rootThreadIds ths) = Inr cs" by simp
  with 0 l assms(2)
  have run: "buildThread fuel annotations opts = Inr (project opts (Thread rootProps cs))"
    by (simp add: buildThread_def threadAnnotations_def linkedThreads_def)
  have "buildThread (fuel + k) annotations opts = Inr (project opts (Thread rootProps cs))" for k
    using buildThread_more_fuel[of fuel annotations opts k] run by simp
  then show ?thesis by blast
qed


subsection \<open>What linking keeps\<close>

text \<open>
  Every placeholder that \<^verbatim>\<open>setParent\<close> creates and every link it makes keeps the object
  \<^verbatim>\<open>threads\<close> sound; a parent once assigned is never changed. So what the call for one
  annotation leaves behind is still there when all annotations are linked.
\<close>

lemma adjacent_snoc: "adjacent (xs @ [q, i]) = adjacent (xs @ [q]) @ [(i, q)]"
  by (induction xs rule: adjacent.induct) auto

lemma adjacent_parent: "(c, q) \<in> set (adjacent xs) \<Longrightarrow> q \<in> set (butlast xs) \<and> c \<in> set (tl xs)"
  by (induction xs rule: adjacent.induct) auto

lemma adjacent_distinct: "(c, q) \<in> set (adjacent xs) \<Longrightarrow> distinct xs \<Longrightarrow> c \<noteq> q"
  by (induction xs rule: adjacent.induct) (auto dest: adjacent_parent)

lemma setParent_invariant:
  assumes create: "\<And>ths q. P ths \<Longrightarrow> map_of ths q = None \<Longrightarrow> q \<in> S
            \<Longrightarrow> P (AList.update q (DEFAULT_THREAD_STATE q None) ths)"
    and link: "\<And>ths c q ths' tc. P ths \<Longrightarrow> attach ths c q = Inr ths' \<Longrightarrow> (c, q) \<in> L
            \<Longrightarrow> map_of ths c = Some tc \<Longrightarrow> \<not> truthy (parent tc) \<Longrightarrow> P ths'"
  shows "setParent fuel ths i ps = Inr ths' \<Longrightarrow> P ths \<Longrightarrow> set ps \<subseteq> S
      \<Longrightarrow> set (adjacent (ps @ [i])) \<subseteq> L \<Longrightarrow> P ths'"
proof (induction ps arbitrary: ths i ths' rule: rev_induct)
  case Nil
  then show ?case by (auto simp: setParent.simps split: property.splits)
next
  case (snoc q xs)
  show ?case
  proof (cases "getThread ths i")
    case (Own ti)
    then have ti: "map_of ths i = Some ti" by (simp add: getThread_Own)
    show ?thesis
    proof (cases "truthy (parent ti)")
      case True
      with Own snoc.prems show ?thesis by (simp add: setParent.simps)
    next
      case False
      define ths0 where "ths0 = AList.update q (DEFAULT_THREAD_STATE q None) ths"
      define inner where "inner = (case getThread ths q of
                     Undefined \<Rightarrow> setParent fuel ths0 q xs
                   | _ \<Rightarrow> Inr ths)"
      have unfold: "setParent fuel ths i (xs @ [q]) =
          (case inner of
               Inl e \<Rightarrow> Inl e
             | Inr ths1 \<Rightarrow>
                 (case hasPathToRoot fuel ths1 i q of
                    Inl e \<Rightarrow> Inl e
                  | Inr ok \<Rightarrow> if ok then attach ths1 i q else Inr ths1))"
        using Own False
        unfolding inner_def ths0_def setParent.simps[of fuel ths i "xs @ [q]"] last_snoc butlast_snoc
        by simp
      from snoc.prems(1) obtain ths1 ok where inner: "inner = Inr ths1"
        and last: "(if ok then attach ths1 i q else Inr ths1) = Inr ths'"
        unfolding unfold by (auto split: sum.splits)
      have L: "set (adjacent (xs @ [q])) \<subseteq> L" "(i, q) \<in> L"
        using snoc.prems(4) by (auto simp: adjacent_snoc)
      have mid: "P ths1 \<and> (\<exists>t1. map_of ths1 i = Some t1 \<and> \<not> truthy (parent t1))"
      proof (cases "getThread ths q")
        case Undefined
        then have qn: "map_of ths q = None" by (rule getThread_Undefined)
        with ti have iq: "i \<noteq> q" by auto
        have run: "setParent fuel ths0 q xs = Inr ths1"
          using inner Undefined by (simp add: inner_def)
        have "P ths0" unfolding ths0_def using snoc.prems(2) qn snoc.prems(3) by (intro create) auto
        from snoc.IH[OF run this _ L(1)] snoc.prems(3) have "P ths1" by simp
        moreover have "map_of ths0 i = Some ti"
          using ti iq by (simp add: ths0_def map_of_update_other)
        from setParent_keeps[OF run this] iq False
        have "\<exists>t1. map_of ths1 i = Some t1 \<and> \<not> truthy (parent t1)" by auto
        ultimately show ?thesis by blast
      next
        case (Own tq)
        with inner snoc.prems(2) ti False show ?thesis by (auto simp: inner_def)
      next
        case Inherited
        with inner snoc.prems(2) ti False show ?thesis by (auto simp: inner_def)
      qed
      show ?thesis
      proof (cases ok)
        case True
        with last have "attach ths1 i q = Inr ths'" by simp
        with mid L(2) show ?thesis by (auto intro: link)
      next
        case False
        with last mid show ?thesis by auto
      qed
    qed
  next
    case Inherited
    with snoc.prems show ?thesis by (simp add: setParent.simps)
  next
    case Undefined
    with snoc.prems show ?thesis by (simp add: setParent.simps)
  qed
qed

lemma attach_keys:
  assumes "attach ths c q = Inr ths'"
  shows "map fst ths' = map fst ths"
proof -
  from assms obtain t p where t: "map_of ths c = Some t"
    and p: "map_of (AList.update c (t\<lparr>parent := Some q\<rparr>) ths) q = Some p"
    and ths': "ths' = AList.update q (p\<lparr>childrenRefs := childrenRefs p @ [c]\<rparr>)
                 (AList.update c (t\<lparr>parent := Some q\<rparr>) ths)"
    by (auto simp: attach_def getThread_def Let_def split: option.splits if_splits)
  from t have 1: "c \<in> fst ` set ths" by (metis map_of_eq_None_iff option.distinct(1))
  from p have 2: "q \<in> fst ` set (AList.update c (t\<lparr>parent := Some q\<rparr>) ths)"
    by (metis map_of_eq_None_iff option.distinct(1))
  have k1: "map fst (AList.update c (t\<lparr>parent := Some q\<rparr>) ths) = map fst ths"
    using 1 by (simp add: AList.update_keys)
  from 2 have "q \<in> set (map fst (AList.update c (t\<lparr>parent := Some q\<rparr>) ths))" by simp
  then show ?thesis unfolding ths' using k1 by (simp add: AList.update_keys)
qed

lemma wired_placeholder:
  assumes "wired as ths" "map_of ths q = None"
  shows "wired as (AList.update q (DEFAULT_THREAD_STATE q None) ths)"
proof -
  let ?ths = "AList.update q (DEFAULT_THREAD_STATE q None) ths"
  have keys: "distinct (map fst ?ths)" using assms(1) by (simp add: wired_def distinct_update)
  have entry: "visible t \<and> distinct (childrenRefs t)
           \<and> (\<forall>a. annotation t = Some a \<longrightarrow> a \<in> set as \<and> annotationId a = k)
           \<and> (\<forall>p. parent t = Some p \<longrightarrow>
                (k, p) \<in> claimedLinks as
                \<and> (\<exists>tq. map_of ?ths p = Some tq \<and> k \<in> set (childrenRefs tq)))"
    if kt: "map_of ?ths k = Some t" for k t
  proof (cases "k = q")
    case True
    with kt have "t = DEFAULT_THREAD_STATE q None" by (simp add: map_of_update_same)
    then show ?thesis by (simp add: DEFAULT_THREAD_STATE_def)
  next
    case False
    with kt have old: "map_of ths k = Some t" by (simp add: map_of_update_other)
    have "\<exists>tq. map_of ?ths p = Some tq \<and> k \<in> set (childrenRefs tq)" if "parent t = Some p" for p
    proof -
      from assms(1) old that obtain tq where tq: "map_of ths p = Some tq" "k \<in> set (childrenRefs tq)"
        unfolding wired_def by blast
      with assms(2) have "p \<noteq> q" by auto
      with tq show ?thesis by (simp add: map_of_update_other)
    qed
    with assms(1) old show ?thesis unfolding wired_def by blast
  qed
  show ?thesis unfolding wired_def using keys entry by blast
qed

lemma wired_attach:
  assumes c: "consistent ths" and w: "wired as ths" and a: "attach ths i q = Inr ths'"
    and l: "(i, q) \<in> claimedLinks as" and i: "map_of ths i = Some ti" "parent ti = None"
  shows "wired as ths'"
proof -
  have keys: "distinct (map fst ths')" using w attach_keys[OF a] by (simp add: wired_def)
  have qi: "\<exists>tq. map_of ths q = Some tq"
    using a by (auto simp: attach_def getThread_def Let_def AList.update_conv'
        split: option.splits if_splits property.splits)
  have entry: "visible t \<and> distinct (childrenRefs t)
           \<and> (\<forall>a. annotation t = Some a \<longrightarrow> a \<in> set as \<and> annotationId a = k)
           \<and> (\<forall>p. parent t = Some p \<longrightarrow>
                (k, p) \<in> claimedLinks as
                \<and> (\<exists>tq. map_of ths' p = Some tq \<and> k \<in> set (childrenRefs tq)))"
    if kt: "map_of ths' k = Some t" for k t
  proof -
    from kt obtain t0 where t0: "map_of ths k = Some t0"
      and t: "t = t0\<lparr>parent := (if k = i then Some q else parent t0),
                   childrenRefs := (if k = q then childrenRefs t0 @ [i] else childrenRefs t0)\<rparr>"
      unfolding attach_lookup[OF a] by auto
    from w t0 have old: "visible t0" "distinct (childrenRefs t0)"
      "\<forall>a. annotation t0 = Some a \<longrightarrow> a \<in> set as \<and> annotationId a = k"
      "\<forall>p. parent t0 = Some p \<longrightarrow> (k, p) \<in> claimedLinks as
                \<and> (\<exists>tq. map_of ths p = Some tq \<and> k \<in> set (childrenRefs tq))"
      unfolding wired_def by blast+
    have d: "distinct (childrenRefs t)"
    proof (cases "k = q")
      case True
      have "i \<notin> set (childrenRefs t0)"
      proof
        assume "i \<in> set (childrenRefs t0)"
        from consistentD(3)[OF c t0 this] i show False by simp
      qed
      with old(2) t True show ?thesis by simp
    next
      case False
      with old(2) t show ?thesis by simp
    qed
    have p: "(k, p) \<in> claimedLinks as \<and> (\<exists>tq. map_of ths' p = Some tq \<and> k \<in> set (childrenRefs tq))"
      if "parent t = Some p" for p
    proof (cases "k = i")
      case True
      with that t have "p = q" by simp
      from qi obtain tq where tq: "map_of ths q = Some tq" by blast
      have "map_of ths' q = Some (tq\<lparr>parent := (if q = i then Some q else parent tq),
                   childrenRefs := childrenRefs tq @ [i]\<rparr>)"
        unfolding attach_lookup[OF a] using tq by simp
      then have "\<exists>tq. map_of ths' q = Some tq \<and> i \<in> set (childrenRefs tq)" by simp
      with True l \<open>p = q\<close> show ?thesis by simp
    next
      case False
      with that t have "parent t0 = Some p" by simp
      with old(4) obtain tq where "(k, p) \<in> claimedLinks as" "map_of ths p = Some tq"
        "k \<in> set (childrenRefs tq)" by blast
      then show ?thesis unfolding attach_lookup[OF a] by auto
    qed
    from old(1,3) t d p show ?thesis by simp
  qed
  show ?thesis unfolding wired_def using keys entry by blast
qed

lemma sound_setParent:
  assumes "setParent fuel ths i ps = Inr ths'" "sound as ths" "[] \<notin> set ps"
    "set (adjacent (ps @ [i])) \<subseteq> claimedLinks as"
  shows "sound as ths'"
proof (rule setParent_invariant[where P = "sound as" and S = "{q. q \<noteq> []}"
      and L = "{(c, q). (c, q) \<in> claimedLinks as \<and> q \<noteq> []}", OF _ _ assms(1,2)])
  fix ths q
  assume "sound as ths" "map_of ths q = None" "q \<in> {q. q \<noteq> []}"
  then show "sound as (AList.update q (DEFAULT_THREAD_STATE q None) ths)"
    by (auto simp: sound_def intro: consistent_placeholder wired_placeholder)
next
  fix ths c q ths' tc
  assume s: "sound as ths" and a: "attach ths c q = Inr ths'"
    and l: "(c, q) \<in> {(c, q). (c, q) \<in> claimedLinks as \<and> q \<noteq> []}"
    and tc: "map_of ths c = Some tc" "\<not> truthy (parent tc)"
  from s have c: "consistent ths" and w: "wired as ths" by (simp_all add: sound_def)
  have none: "parent tc = None"
    using tc(2) consistentD(2)[OF c tc(1)] by (cases "parent tc") (auto simp: truthy_simps)
  from l have "(c, q) \<in> claimedLinks as" "q \<noteq> []" by auto
  with consistent_attach[OF c a tc(1) none] wired_attach[OF c w a _ tc(1) none]
  show "sound as ths'" by (simp add: sound_def)
next
  show "set ps \<subseteq> {q. q \<noteq> []}" using assms(3) by auto
next
  show "set (adjacent (ps @ [i])) \<subseteq> {(c, q). (c, q) \<in> claimedLinks as \<and> q \<noteq> []}"
    using assms(3,4) by (auto dest: adjacent_parent simp: butlast_append)
qed

lemma sound_linkThreads:
  "linkThreads fuel ths bs = Inr ths' \<Longrightarrow> sound as ths \<Longrightarrow> set bs \<subseteq> set as \<Longrightarrow>
     \<forall>a\<in>set bs. [] \<notin> set (parentsOf a) \<Longrightarrow> sound as ths'"
proof (induction bs arbitrary: ths)
  case Nil
  then show ?case by simp
next
  case (Cons a bs)
  from Cons.prems(1) obtain ths1 where 1: "setParent fuel ths (annotationId a) (parentsOf a) = Inr ths1"
    and 2: "linkThreads fuel ths1 bs = Inr ths'"
    by (auto split: sum.splits)
  have "set (adjacent (parentsOf a @ [annotationId a])) \<subseteq> claimedLinks as"
    using Cons.prems(3) by (auto simp: claimedLinks_def)
  from sound_setParent[OF 1 Cons.prems(2) _ this] Cons.prems(4) have "sound as ths1" by simp
  from Cons.IH[OF 2 this] Cons.prems(3,4) show ?case by simp
qed

lemma sound_createThreads:
  "createThreads ths bs = Inr ths' \<Longrightarrow> fresh ths \<and> wired as ths \<Longrightarrow> set bs \<subseteq> set as \<Longrightarrow>
     fresh ths' \<and> wired as ths'"
proof (induction bs arbitrary: ths)
  case Nil
  then show ?case by simp
next
  case (Cons a bs)
  let ?k = "annotationId a"
  let ?ths = "AList.update ?k (DEFAULT_THREAD_STATE ?k (Some a)) ths"
  from Cons.prems(1) have run: "createThreads ?ths bs = Inr ths'" by (auto split: if_splits)
  have f: "fresh ?ths"
    using Cons.prems(2)
    by (auto simp: fresh_def AList.update_conv' DEFAULT_THREAD_STATE_def split: if_splits)
  have "wired as ?ths"
    unfolding wired_def
  proof (intro conjI allI impI)
    show "distinct (map fst ?ths)" using Cons.prems(2) by (simp add: wired_def distinct_update)
  next
    fix k t assume kt: "map_of ?ths k = Some t"
    then have cases: "k = ?k \<and> t = DEFAULT_THREAD_STATE ?k (Some a) \<or> k \<noteq> ?k \<and> map_of ths k = Some t"
      by (auto simp: AList.update_conv' split: if_splits)
    from cases Cons.prems(2) show "visible t"
      by (auto simp: wired_def DEFAULT_THREAD_STATE_def)
    from cases Cons.prems(2) show "distinct (childrenRefs t)"
      by (auto simp: wired_def DEFAULT_THREAD_STATE_def)
    from f kt have none: "parent t = None" by (auto simp: fresh_def)
    { fix b assume "annotation t = Some b"
      with cases Cons.prems(2,3) show "b \<in> set as" "annotationId b = k"
        by (auto simp: wired_def DEFAULT_THREAD_STATE_def) }
    { fix q assume "parent t = Some q"
      with none show "(k, q) \<in> claimedLinks as" "\<exists>tq. map_of ?ths q = Some tq \<and> k \<in> set (childrenRefs tq)"
        by simp_all }
  qed
  from Cons.IH[OF run] f this Cons.prems(3) show ?case by simp
qed

lemma sound_linkedThreads:
  assumes "linkedThreads fuel as = Inr ths" "\<forall>a\<in>set as. [] \<notin> set (parentsOf a)"
  shows "sound as ths"
proof -
  from assms(1) obtain ths0 where 0: "createThreads [] as = Inr ths0"
    and 1: "linkThreads fuel ths0 as = Inr ths"
    by (auto simp: linkedThreads_def split: sum.splits)
  have "fresh [] \<and> wired as []" by (simp add: fresh_def wired_def)
  from sound_createThreads[OF 0 this] have "fresh ths0" "wired as ths0" by simp_all
  then have "sound as ths0" by (auto simp: sound_def fresh_def consistent_def)
  from sound_linkThreads[OF 1 this _ assms(2)] show ?thesis by simp
qed

lemma hasPathToRoot_False:
  "hasPathToRoot f ths i q = Inr False \<Longrightarrow> wired as ths \<Longrightarrow> map_of ths q = Some tq \<Longrightarrow>
     \<exists>x m tx. reaches ths q m x \<and> map_of ths x = Some tx \<and> parent tx = Some i"
proof (induction f arbitrary: q tq)
  case 0
  then show ?case by simp
next
  case (Suc f)
  show ?case
  proof (cases "parent tq")
    case None
    with Suc.prems show ?thesis by (simp add: getThread_def)
  next
    case (Some p)
    show ?thesis
    proof (cases "p = i")
      case True
      have "reaches ths q 0 q" by (rule reaches.here[OF Suc.prems(3)])
      with Some True Suc.prems(3) show ?thesis by blast
    next
      case False
      with Suc.prems(1,3) Some have rec: "hasPathToRoot f ths i p = Inr False"
        by (auto simp: getThread_def split: if_splits)
      from Suc.prems(2,3) Some obtain tp where tp: "map_of ths p = Some tp"
        unfolding wired_def by blast
      from Suc.IH[OF rec Suc.prems(2) tp] obtain x m tx where
        "reaches ths p m x" "map_of ths x = Some tx" "parent tx = Some i" by blast
      with reaches.up[OF Suc.prems(3) Some] show ?thesis by blast
    qed
  qed
qed

lemma setParent_outcome:
  assumes s: "sound as ths" and i: "map_of ths i = Some ti" "parent ti = None"
    and ps: "ps \<noteq> []" "[] \<notin> set ps" "set (adjacent (ps @ [i])) \<subseteq> claimedLinks as"
    and run: "setParent fuel ths i ps = Inr ths'"
  shows "outcome ths' i (last ps)"
proof -
  define q where "q = last ps"
  define xs where "xs = butlast ps"
  have psq: "ps = xs @ [q]" using ps(1) by (simp add: q_def xs_def)
  have own: "getThread ths i = Own ti" using i(1) by (simp add: getThread_Own)
  define ths0 where "ths0 = AList.update q (DEFAULT_THREAD_STATE q None) ths"
  define inner where "inner = (case getThread ths q of
                     Undefined \<Rightarrow> setParent fuel ths0 q xs
                   | _ \<Rightarrow> Inr ths)"
  have unfold: "setParent fuel ths i ps =
          (case inner of
               Inl e \<Rightarrow> Inl e
             | Inr ths1 \<Rightarrow>
                 (case hasPathToRoot fuel ths1 i q of
                    Inl e \<Rightarrow> Inl e
                  | Inr ok \<Rightarrow> if ok then attach ths1 i q else Inr ths1))"
    using own i(2)
    unfolding inner_def ths0_def psq setParent.simps[of fuel ths i "xs @ [q]"] last_snoc butlast_snoc
    by (simp add: truthy_simps)
  from run obtain ths1 ok where inner: "inner = Inr ths1"
    and ok: "hasPathToRoot fuel ths1 i q = Inr ok"
    and last: "(if ok then attach ths1 i q else Inr ths1) = Inr ths'"
    unfolding unfold by (auto split: sum.splits)
  have L: "set (adjacent (xs @ [q])) \<subseteq> claimedLinks as"
    using ps(3) by (auto simp: psq adjacent_snoc)
  have mid: "sound as ths1 \<and> (\<exists>t1. map_of ths1 i = Some t1 \<and> parent t1 = None)
      \<and> (ok \<or> (\<exists>tq. map_of ths1 q = Some tq))"
  proof (cases "getThread ths q")
    case Undefined
    then have qn: "map_of ths q = None" by (rule getThread_Undefined)
    with i have iq: "i \<noteq> q" by auto
    have r: "setParent fuel ths0 q xs = Inr ths1"
      using inner Undefined by (simp add: inner_def)
    from s qn have "sound as ths0"
      by (auto simp: sound_def ths0_def intro: consistent_placeholder wired_placeholder)
    from sound_setParent[OF r this _ L] ps(2) have "sound as ths1" by (simp add: psq)
    moreover have "map_of ths0 i = Some ti"
      using i iq by (simp add: ths0_def map_of_update_other)
    from setParent_keeps[OF r this] iq i(2)
    have "\<exists>t1. map_of ths1 i = Some t1 \<and> parent t1 = None" by auto
    moreover have "map_of ths0 q = Some (DEFAULT_THREAD_STATE q None)"
      by (simp add: ths0_def map_of_update_same)
    from setParent_keeps[OF r this] have "\<exists>tq. map_of ths1 q = Some tq" by blast
    ultimately show ?thesis by blast
  next
    case (Own tq)
    with inner s i show ?thesis by (auto simp: inner_def getThread_Own)
  next
    case Inherited
    with inner have "ths1 = ths" by (simp add: inner_def)
    moreover from this Inherited ok have "ok"
      by (cases fuel) auto
    ultimately show ?thesis using s i by auto
  qed
  then obtain t1 where s1: "sound as ths1" and t1: "map_of ths1 i = Some t1" "parent t1 = None"
    by blast
  show ?thesis
  proof (cases ok)
    case True
    with last have a: "attach ths1 i q = Inr ths'" by simp
    then have "\<exists>tq. map_of ths1 q = Some tq"
      by (auto simp: attach_def getThread_def Let_def AList.update_conv'
        split: option.splits if_splits property.splits)
    with t1 show ?thesis
      unfolding outcome_def q_def[symmetric] attach_lookup[OF a] by auto
  next
    case False
    with last have eq: "ths' = ths1" by simp
    from False mid obtain tq where tq: "map_of ths1 q = Some tq" by blast
    from s1 have "wired as ths1" by (simp add: sound_def)
    from hasPathToRoot_False[OF _ this tq, of fuel i] ok False
    have "\<exists>x m tx. reaches ths1 q m x \<and> map_of ths1 x = Some tx \<and> parent tx = Some i" by simp
    with t1 tq show ?thesis
      unfolding outcome_def q_def[symmetric] eq by blast
  qed
qed

lemma setParent_keeps_parent:
  assumes "setParent fuel ths i ps = Inr ths'" "map_of ths k = Some t" "parent t = Some q" "q \<noteq> []"
  shows "\<exists>t'. map_of ths' k = Some t' \<and> parent t' = Some q"
proof (cases "k = i")
  case True
  with assms have "ths' = ths"
    by (simp add: setParent.simps[of fuel ths i ps] getThread_def truthy_simps)
  with assms show ?thesis by simp
next
  case False
  with setParent_keeps[OF assms(1,2)] assms(3) show ?thesis by auto
qed

lemma reaches_setParent:
  assumes "setParent fuel ths i ps = Inr ths'" "consistent ths"
  shows "reaches ths p m x \<Longrightarrow> reaches ths' p m x"
proof (induction rule: reaches.induct)
  case (here x t)
  from setParent_keeps[OF assms(1) here] show ?case by (auto intro: reaches.here)
next
  case (up x t q m k)
  from consistentD(2)[OF assms(2) up.hyps(1)] up.hyps(2) have "q \<noteq> []" by auto
  from setParent_keeps_parent[OF assms(1) up.hyps(1,2) this] up.IH show ?case
    by (auto intro: reaches.up)
qed

lemma outcome_setParent:
  assumes run: "setParent fuel ths j ps = Inr ths'" and c: "consistent ths" and j: "j \<noteq> i"
    and o: "outcome ths i p"
  shows "outcome ths' i p"
proof -
  from o obtain ti tp where ti: "map_of ths i = Some ti" and tp: "map_of ths p = Some tp"
    and alt: "parent ti = Some p
            \<or> parent ti = None
              \<and> (\<exists>x m tx. reaches ths p m x \<and> map_of ths x = Some tx \<and> parent tx = Some i)"
    unfolding outcome_def by blast
  from setParent_keeps[OF run ti] j obtain ti' where ti': "map_of ths' i = Some ti'"
      "parent ti' = parent ti" by auto
  from setParent_keeps[OF run tp] obtain tp' where tp': "map_of ths' p = Some tp'" by auto
  from consistentD(1)[OF c ti] have idi: "id_thr ti = i" .
  from alt show ?thesis
  proof
    assume "parent ti = Some p"
    with ti' tp' show ?thesis unfolding outcome_def by auto
  next
    assume "parent ti = None
              \<and> (\<exists>x m tx. reaches ths p m x \<and> map_of ths x = Some tx \<and> parent tx = Some i)"
    then obtain x m tx where n: "parent ti = None" and r: "reaches ths p m x"
      and tx: "map_of ths x = Some tx" "parent tx = Some i" by blast
    from consistentD(2)[OF c tx(1)] tx(2) have "i \<noteq> []" by auto
    from setParent_keeps_parent[OF run tx this] obtain tx' where
      "map_of ths' x = Some tx'" "parent tx' = Some i" by blast
    with reaches_setParent[OF run c r] ti' tp' n show ?thesis unfolding outcome_def by auto
  qed
qed

lemma outcome_linkThreads:
  "linkThreads fuel ths bs = Inr ths' \<Longrightarrow> sound as ths \<Longrightarrow> set bs \<subseteq> set as \<Longrightarrow>
     \<forall>a\<in>set bs. [] \<notin> set (parentsOf a) \<Longrightarrow> i \<notin> annotationId ` set bs \<Longrightarrow>
     outcome ths i p \<Longrightarrow> outcome ths' i p"
proof (induction bs arbitrary: ths)
  case Nil
  then show ?case by simp
next
  case (Cons a bs)
  from Cons.prems(1) obtain ths1 where 1: "setParent fuel ths (annotationId a) (parentsOf a) = Inr ths1"
    and 2: "linkThreads fuel ths1 bs = Inr ths'"
    by (auto split: sum.splits)
  have "set (adjacent (parentsOf a @ [annotationId a])) \<subseteq> claimedLinks as"
    using Cons.prems(3) by (auto simp: claimedLinks_def)
  from sound_setParent[OF 1 Cons.prems(2) _ this] Cons.prems(4) have s1: "sound as ths1" by simp
  from Cons.prems(2) have c: "consistent ths" by (simp add: sound_def)
  from Cons.prems(5) have "annotationId a \<noteq> i" by auto
  from outcome_setParent[OF 1 c this Cons.prems(6)] have "outcome ths1 i p" .
  from Cons.IH[OF 2 s1 _ _ _ this] Cons.prems(3,4,5) show ?case by simp
qed

lemma linkThreads_keeps:
  "linkThreads fuel ths bs = Inr ths' \<Longrightarrow> map_of ths k = Some t \<Longrightarrow>
     \<exists>t'. map_of ths' k = Some t' \<and> annotation t' = annotation t
       \<and> (k \<notin> annotationId ` set bs \<longrightarrow> parent t' = parent t)"
proof (induction bs arbitrary: ths t)
  case Nil
  then show ?case by simp
next
  case (Cons a bs)
  from Cons.prems(1) obtain ths1 where 1: "setParent fuel ths (annotationId a) (parentsOf a) = Inr ths1"
    and 2: "linkThreads fuel ths1 bs = Inr ths'"
    by (auto split: sum.splits)
  from setParent_keeps[OF 1 Cons.prems(2)] obtain t1 where t1: "map_of ths1 k = Some t1"
    "annotation t1 = annotation t" "k \<noteq> annotationId a \<longrightarrow> parent t1 = parent t" by blast
  from Cons.IH[OF 2 t1(1)] t1(2,3) show ?case by auto
qed

lemma linkThreads_append:
  "linkThreads fuel ths (xs @ ys) =
     (case linkThreads fuel ths xs of Inl e \<Rightarrow> Inl e | Inr ths1 \<Rightarrow> linkThreads fuel ths1 ys)"
  by (induction xs arbitrary: ths) (auto split: sum.splits)

lemma createThreads_entry:
  "createThreads ths bs = Inr ths' \<Longrightarrow> a \<in> set bs \<Longrightarrow> distinct (map annotationId bs) \<Longrightarrow>
     map_of ths' (annotationId a) = Some (DEFAULT_THREAD_STATE (annotationId a) (Some a))"
proof (induction bs arbitrary: ths)
  case Nil
  then show ?case by simp
next
  case (Cons b bs)
  let ?ths = "AList.update (annotationId b) (DEFAULT_THREAD_STATE (annotationId b) (Some b)) ths"
  from Cons.prems(1) have run: "createThreads ?ths bs = Inr ths'" by (auto split: if_splits)
  have keep: "createThreads ths0 cs = Inr ths1 \<Longrightarrow> k \<notin> annotationId ` set cs \<Longrightarrow>
      map_of ths1 k = map_of ths0 k" for ths0 ths1 cs k
    by (induction cs arbitrary: ths0) (auto simp: map_of_update_other split: if_splits)
  show ?case
  proof (cases "a \<in> set bs")
    case True
    with Cons.IH[OF run] Cons.prems(3) show ?thesis by simp
  next
    case False
    with Cons.prems(2) have ab: "a = b" by simp
    from Cons.prems(3) have "annotationId b \<notin> annotationId ` set bs" by simp
    from keep[OF run this] ab show ?thesis by (simp add: map_of_update_same)
  qed
qed

lemma reply_outcome:
  assumes wf: "\<forall>a\<in>set as. [] \<notin> set (parentsOf a)"
    and ids: "distinct (map annotationId as)"
    and r: "as = before @ r # after" "parentsOf r \<noteq> []"
    and run: "linkedThreads fuel as = Inr ths"
  shows "sound as ths \<and> outcome ths (annotationId r) (last (parentsOf r))
      \<and> (\<exists>tr. map_of ths (annotationId r) = Some tr \<and> annotation tr = Some r)"
proof -
  let ?i = "annotationId r"
  from run obtain ths0 where 0: "createThreads [] as = Inr ths0"
    and 1: "linkThreads fuel ths0 as = Inr ths"
    by (auto simp: linkedThreads_def split: sum.splits)
  have "fresh [] \<and> wired as []" by (simp add: fresh_def wired_def)
  from sound_createThreads[OF 0 this] have "fresh ths0" "wired as ths0" by simp_all
  then have s0: "sound as ths0" by (auto simp: sound_def fresh_def consistent_def)
  have "r \<in> set as" using r(1) by simp
  from createThreads_entry[OF 0 this ids]
  have e0: "map_of ths0 ?i = Some (DEFAULT_THREAD_STATE ?i (Some r))" .
  from 1 obtain ths1 ths2 where b: "linkThreads fuel ths0 before = Inr ths1"
    and m: "setParent fuel ths1 ?i (parentsOf r) = Inr ths2"
    and a: "linkThreads fuel ths2 after = Inr ths"
    unfolding r(1) linkThreads_append by (auto split: sum.splits)
  have parts: "set before \<subseteq> set as" "set after \<subseteq> set as" using r(1) by auto
  from ids have ni: "?i \<notin> annotationId ` set before" "?i \<notin> annotationId ` set after"
    unfolding r(1) by auto
  from sound_linkThreads[OF b s0 parts(1)] wf parts(1) have s1: "sound as ths1" by auto
  from linkThreads_keeps[OF b e0] ni(1) obtain t1 where t1: "map_of ths1 ?i = Some t1"
      "annotation t1 = Some r" "parent t1 = None"
    by (auto simp: DEFAULT_THREAD_STATE_def)
  have L: "set (adjacent (parentsOf r @ [?i])) \<subseteq> claimedLinks as"
    using \<open>r \<in> set as\<close> by (auto simp: claimedLinks_def)
  have e: "[] \<notin> set (parentsOf r)" using wf \<open>r \<in> set as\<close> by simp
  from setParent_outcome[OF s1 t1(1,3) r(2) e L m] have o2: "outcome ths2 ?i (last (parentsOf r))" .
  from sound_setParent[OF m s1 e L] have s2: "sound as ths2" .
  from outcome_linkThreads[OF a s2 parts(2) _ ni(2) o2] wf parts(2)
  have "outcome ths ?i (last (parentsOf r))" by auto
  moreover from sound_linkThreads[OF a s2 parts(2)] wf parts(2) have "sound as ths" by auto
  moreover from setParent_keeps[OF m t1(1)] t1(2) obtain t2 where
    "map_of ths2 ?i = Some t2" "annotation t2 = Some r" by auto
  with linkThreads_keeps[OF a this(1)] have "\<exists>tr. map_of ths ?i = Some tr \<and> annotation tr = Some r"
    by auto
  ultimately show ?thesis by blast
qed

subsection \<open>The tree of a sound store\<close>

text \<open>
  In the tree that \<^verbatim>\<open>threadAnnotations\<close> returns no id occurs twice below the root, and a
  chain of children in \<^verbatim>\<open>threads\<close> that starts at a thread without parent is a chain of
  children in the tree.
\<close>

lemma mapE_Inr_fwd:
  "mapE f xs = Inr ys \<Longrightarrow> x \<in> set xs \<Longrightarrow> \<exists>y\<in>set ys. f x = Inr y"
  by (induction xs arbitrary: ys) (auto split: sum.splits)

lemma resolve_key:
  assumes "resolve f ths k = Inr T" "consistent ths"
  shows "key T = storeKey ths k"
proof -
  from linked_resolve[OF assms] obtain t where t: "map_of ths k = Some t"
    "props T = thread_props.truncate t" by blast
  with consistentD(1)[OF assms(2) t(1)] show ?thesis
    by (simp add: key_def storeKey_def thread_props.truncate_def)
qed

lemma path_resolve:
  "resolve f ths k = Inr T \<Longrightarrow> consistent ths \<Longrightarrow> downPath ths k xs
     \<Longrightarrow> pathIn T (map (storeKey ths) xs)"
proof (induction xs arbitrary: f k T)
  case Nil
  then show ?case by simp
next
  case (Cons x xs)
  from Cons.prems(1) obtain f' where f: "f = Suc f'" by (cases f) auto
  from Cons.prems(3) obtain t where t: "map_of ths k = Some t" "x \<in> set (childrenRefs t)"
    and rest: "downPath ths x xs" by auto
  from Cons.prems(1) t(1) obtain cs where cs: "mapE (resolve f' ths) (childrenRefs t) = Inr cs"
    and T: "T = Thread (thread_props.truncate t) cs"
    unfolding f by (auto split: sum.splits)
  from mapE_Inr_fwd[OF cs t(2)] obtain Tx where Tx: "Tx \<in> set cs" "resolve f' ths x = Inr Tx"
    by blast
  from Cons.IH[OF Tx(2) Cons.prems(2) rest] resolve_key[OF Tx(2) Cons.prems(2)] Tx(1) T
  show ?case by auto
qed

lemma downPath_snoc:
  "downPath ths k xs \<Longrightarrow> map_of ths (last (k # xs)) = Some t \<Longrightarrow> x \<in> set (childrenRefs t)
     \<Longrightarrow> downPath ths k (xs @ [x])"
  by (induction xs arbitrary: k) auto

lemma reaches_downPath:
  "reaches ths x m k \<Longrightarrow> wired as ths \<Longrightarrow>
     \<exists>xs. downPath ths k xs \<and> length xs = m \<and> last (k # xs) = x"
proof (induction rule: reaches.induct)
  case (here x t)
  have "downPath ths x [] \<and> length ([] :: string list) = 0 \<and> last (x # []) = x" by simp
  then show ?case by blast
next
  case (up x t q m k)
  from up.IH[OF up.prems] obtain xs where xs: "downPath ths k xs" "length xs = m" "last (k # xs) = q"
    by blast
  from up.prems up.hyps(1,2) obtain tq where tq: "map_of ths q = Some tq" "x \<in> set (childrenRefs tq)"
    unfolding wired_def by blast
  from downPath_snoc[OF xs(1) tq(1)[folded xs(3)] tq(2)] xs(2)
  have "downPath ths k (xs @ [x]) \<and> length (xs @ [x]) = Suc m \<and> last (k # xs @ [x]) = x" by simp
  then show ?case by blast
qed

lemma level_reaches:
  "level ths x n \<Longrightarrow> \<exists>rt t. reaches ths x n rt \<and> map_of ths rt = Some t \<and> parent t = None"
proof (induction rule: level.induct)
  case (top k t)
  then show ?case by (blast intro: reaches.here)
next
  case (below k t q n)
  then show ?case by (blast intro: reaches.up)
qed

lemma reaches_level: "reaches ths x m k \<Longrightarrow> level ths k n \<Longrightarrow> level ths x (n + m)"
  by (induction rule: reaches.induct) (auto intro: level.below)

lemma reaches_unique: "reaches ths x m k \<Longrightarrow> reaches ths x m k' \<Longrightarrow> k = k'"
proof (induction arbitrary: k' rule: reaches.induct)
  case (here x t)
  from here.prems show ?case by (cases rule: reaches.cases) auto
next
  case (up x t q m k)
  from up.prems up.hyps(1,2) have "reaches ths q m k'"
    by (cases rule: reaches.cases) auto
  with up.IH show ?case by blast
qed

lemma reaches_trans:
  "reaches ths y a c \<Longrightarrow> reaches ths c b k \<Longrightarrow> reaches ths y (a + b) k"
  by (induction rule: reaches.induct) (auto intro: reaches.up)

lemma same_level_disjoint:
  assumes "reaches ths x m k" "reaches ths x m' k'" "level ths k n" "level ths k' n"
  shows "k = k'"
proof -
  from reaches_level[OF assms(1,3)] reaches_level[OF assms(2,4)] have "n + m = n + m'"
    by (rule level_unique)
  with assms(1,2) show ?thesis by (auto intro: reaches_unique)
qed

lemma idsOf_Thread: "idsOf (Thread p cs) = id_thr p # concat (map idsOf cs)"
  by (simp add: idsOf_def[abs_def] subthreads_Thread threadId_def map_concat comp_def)

lemma forest_distinct:
  "mapE (resolve f ths) ks = Inr cs \<Longrightarrow> distinct ks \<Longrightarrow> \<forall>k\<in>set ks. level ths k n \<Longrightarrow>
   (\<And>k c. k \<in> set ks \<Longrightarrow> resolve f ths k = Inr c \<Longrightarrow>
      distinct (idsOf c) \<and> (\<forall>x\<in>set (idsOf c). \<exists>m. reaches ths x m k)) \<Longrightarrow>
   distinct (concat (map idsOf cs))
     \<and> (\<forall>x\<in>set (concat (map idsOf cs)). \<exists>m. \<exists>k\<in>set ks. reaches ths x m k)"
proof (induction ks arbitrary: cs)
  case Nil
  then show ?case by simp
next
  case (Cons k ks)
  from Cons.prems(1) obtain c cs' where c: "resolve f ths k = Inr c"
    and cs': "mapE (resolve f ths) ks = Inr cs'" and cs: "cs = c # cs'"
    by (auto split: sum.splits)
  from Cons.prems(4)[OF _ c] have kc: "distinct (idsOf c)" "\<forall>x\<in>set (idsOf c). \<exists>m. reaches ths x m k"
    by simp_all
  from Cons.IH[OF cs'] Cons.prems(2,3,4)
  have rest: "distinct (concat (map idsOf cs'))"
    "\<forall>x\<in>set (concat (map idsOf cs')). \<exists>m. \<exists>k\<in>set ks. reaches ths x m k"
    by auto
  have "set (idsOf c) \<inter> set (concat (map idsOf cs')) = {}"
  proof (rule ccontr)
    assume "set (idsOf c) \<inter> set (concat (map idsOf cs')) \<noteq> {}"
    then obtain x where x: "x \<in> set (idsOf c)" "x \<in> set (concat (map idsOf cs'))" by blast
    from kc(2) x(1) obtain m where m: "reaches ths x m k" by blast
    from rest(2) x(2) obtain m' k' where m': "k' \<in> set ks" "reaches ths x m' k'" by blast
    from Cons.prems(3) m'(1) have "level ths k n" "level ths k' n" by simp_all
    from same_level_disjoint[OF m m'(2) this] m'(1) Cons.prems(2) show False by simp
  qed
  moreover have "\<exists>m. \<exists>k'\<in>set (k # ks). reaches ths x m k'"
    if "x \<in> set (concat (map idsOf (c # cs')))" for x
  proof -
    from that have "x \<in> set (idsOf c) \<or> x \<in> set (concat (map idsOf cs'))" by simp
    then show ?thesis
    proof
      assume "x \<in> set (idsOf c)"
      with kc(2) show ?thesis by auto
    next
      assume "x \<in> set (concat (map idsOf cs'))"
      with rest(2) show ?thesis by (simp del: set_concat) blast
    qed
  qed
  ultimately show ?case unfolding cs using kc(1) rest(1) by (simp del: set_concat)
qed

lemma tree_distinct:
  "resolve f ths k = Inr T \<Longrightarrow> consistent ths \<Longrightarrow> wired as ths \<Longrightarrow> level ths k n \<Longrightarrow>
     distinct (idsOf T) \<and> (\<forall>x\<in>set (idsOf T). \<exists>m. reaches ths x m k)"
proof (induction f arbitrary: k T n)
  case 0
  then show ?case by simp
next
  case (Suc f)
  from Suc.prems(1) obtain t cs where t: "map_of ths k = Some t"
    and cs: "mapE (resolve f ths) (childrenRefs t) = Inr cs"
    and T: "T = Thread (thread_props.truncate t) cs"
    by (auto split: option.splits sum.splits)
  from consistentD(1)[OF Suc.prems(2) t] have idk: "id_thr (thread_props.truncate t) = k"
    by (simp add: thread_props.truncate_def)
  have d: "distinct (childrenRefs t)" using Suc.prems(3) t unfolding wired_def by blast
  have lv: "\<forall>c\<in>set (childrenRefs t). level ths c (Suc n)"
  proof
    fix c assume "c \<in> set (childrenRefs t)"
    from consistentD(3)[OF Suc.prems(2) t this]
    obtain tc where "map_of ths c = Some tc" "parent tc = Some k" by blast
    then show "level ths c (Suc n)" using Suc.prems(4) by (rule level.below)
  qed
  have sub: "distinct (idsOf c') \<and> (\<forall>x\<in>set (idsOf c'). \<exists>m. reaches ths x m c)"
    if "c \<in> set (childrenRefs t)" "resolve f ths c = Inr c'" for c c'
    using Suc.IH[OF that(2) Suc.prems(2,3)] lv that(1) by blast
  from forest_distinct[OF cs d lv sub]
  have f: "distinct (concat (map idsOf cs))"
    "\<forall>x\<in>set (concat (map idsOf cs)). \<exists>m. \<exists>c\<in>set (childrenRefs t). reaches ths x m c"
    by simp_all
  have up: "\<exists>m. reaches ths x (Suc m) k" if "x \<in> set (concat (map idsOf cs))" for x
  proof -
    from f(2) that obtain m c where c: "c \<in> set (childrenRefs t)" "reaches ths x m c" by blast
    from consistentD(3)[OF Suc.prems(2) t c(1)]
    obtain tc where tc: "map_of ths c = Some tc" "parent tc = Some k" by blast
    have "reaches ths c (Suc 0) k" by (rule reaches.up[OF tc reaches.here[OF t]])
    from reaches_trans[OF c(2) this] show ?thesis by auto
  qed
  have "k \<notin> set (concat (map idsOf cs))"
  proof
    assume "k \<in> set (concat (map idsOf cs))"
    from up[OF this] obtain m where "reaches ths k (Suc m) k" by blast
    from reaches_level[OF this Suc.prems(4)] Suc.prems(4) have "n + Suc m = n"
      by (rule level_unique)
    then show False by simp
  qed
  moreover have "reaches ths k 0 k" by (rule reaches.here[OF t])
  ultimately show ?case
    unfolding T idsOf_Thread idk using f(1) up by (auto simp del: set_concat)
qed

lemma rooted_linkedThreads:
  assumes run: "linkedThreads fuel as = Inr ths"
    and wf: "\<forall>a\<in>set as. annotationId a \<noteq> ''__proto__''
      \<and> annotationId a \<notin> set (parentsOf a) \<and> distinct (parentsOf a) \<and> [] \<notin> set (parentsOf a)
      \<and> (\<forall>r\<in>set (parentsOf a). r \<notin> set objectPrototypeProps)"
  shows "rooted ths"
proof -
  from run obtain ths0 where 0: "createThreads [] as = Inr ths0"
    and 1: "linkThreads fuel ths0 as = Inr ths"
    by (auto simp: linkedThreads_def split: sum.splits)
  from createThreads_returns[of as "[]"] wf 0
  have keys: "\<forall>a\<in>set as. \<exists>t. map_of ths0 (annotationId a) = Some t"
    by auto
  have "fresh []" by (simp add: fresh_def)
  from fresh_createThreads[OF 0 this] have f0: "fresh ths0" .
  then have c0: "consistent ths0" by (auto simp: fresh_def consistent_def)
  from f0 have r0: "rooted ths0" by (rule rooted_fresh)
  from linkThreads_returns[OF c0 r0, of as] keys wf
  obtain f1 ths' where 2: "linkThreads f1 ths0 as = Inr ths'" and r: "rooted ths'"
    by auto
  from linkThreads_more_fuel[of fuel ths0 as f1] 1
  have "linkThreads (fuel + f1) ths0 as = Inr ths" by simp
  moreover from linkThreads_more_fuel[of f1 ths0 as fuel] 2
  have "linkThreads (f1 + fuel) ths0 as = Inr ths'" by simp
  ultimately have "ths' = ths" by (simp add: add.commute)
  with r show ?thesis by simp
qed

lemma wired_collapseRoots:
  assumes "wired as ths"
  shows "wired as (collapseRoots ths)"
proof -
  let ?g = "\<lambda>t. if \<not> truthy (parent t) then t\<lparr>collapsed := True\<rparr> else t"
  have g: "visible (?g x) = visible x" "parent (?g x) = parent x"
    "childrenRefs (?g x) = childrenRefs x" "annotation (?g x) = annotation x" for x :: thread_obj
    by simp_all
  have keys: "map fst (collapseRoots ths) = map fst ths"
    by (simp add: collapseRoots_def comp_def case_prod_unfold)
  have entry: "visible t \<and> distinct (childrenRefs t)
           \<and> (\<forall>a. annotation t = Some a \<longrightarrow> a \<in> set as \<and> annotationId a = k)
           \<and> (\<forall>p. parent t = Some p \<longrightarrow>
                (k, p) \<in> claimedLinks as
                \<and> (\<exists>tq. map_of (collapseRoots ths) p = Some tq \<and> k \<in> set (childrenRefs tq)))"
    if kt: "map_of (collapseRoots ths) k = Some t" for k t
  proof -
    from kt obtain t0 where t0: "map_of ths k = Some t0" "t = ?g t0"
      unfolding map_of_collapseRoots by auto
    from assms t0(1) have old: "visible t0" "distinct (childrenRefs t0)"
      "\<forall>a. annotation t0 = Some a \<longrightarrow> a \<in> set as \<and> annotationId a = k"
      "\<forall>p. parent t0 = Some p \<longrightarrow> (k, p) \<in> claimedLinks as
                \<and> (\<exists>tq. map_of ths p = Some tq \<and> k \<in> set (childrenRefs tq))"
      unfolding wired_def by blast+
    have "(k, p) \<in> claimedLinks as
        \<and> (\<exists>tq. map_of (collapseRoots ths) p = Some tq \<and> k \<in> set (childrenRefs tq))"
      if "parent t = Some p" for p
    proof -
      from that t0(2) have "parent t0 = Some p" by (simp only: g)
      with old(4) obtain tq where l: "(k, p) \<in> claimedLinks as" and tq: "map_of ths p = Some tq"
        "k \<in> set (childrenRefs tq)" by blast
      from tq have "map_of (collapseRoots ths) p = Some (?g tq) \<and> k \<in> set (childrenRefs (?g tq))"
        unfolding map_of_collapseRoots by (simp only: g) simp
      with l show ?thesis by blast
    qed
    with old(1,2,3) show ?thesis unfolding t0(2) by (simp only: g) blast
  qed
  show ?thesis unfolding wired_def keys using assms entry by (simp add: wired_def)
qed

lemma reaches_collapseRoots: "reaches ths x m k \<Longrightarrow> reaches (collapseRoots ths) x m k"
proof (induction rule: reaches.induct)
  case (here x t)
  then show ?case by (auto intro!: reaches.here simp: map_of_collapseRoots)
next
  case (up x t q m k)
  then show ?case by (auto intro!: reaches.up simp: map_of_collapseRoots)
qed

lemma storeKey_collapseRoots: "storeKey (collapseRoots ths) = storeKey ths"
  by (rule ext) (simp add: storeKey_def map_of_collapseRoots split: option.splits)

lemma nodes_resolve:
  "resolve f ths k = Inr T \<Longrightarrow> n \<in> set (subthreads T) \<Longrightarrow>
     \<exists>x t. map_of ths x = Some t \<and> props n = thread_props.truncate t"
proof (induction f arbitrary: k T)
  case 0
  then show ?case by simp
next
  case (Suc f)
  from Suc.prems(1) obtain t cs where t: "map_of ths k = Some t"
    and cs: "mapE (resolve f ths) (childrenRefs t) = Inr cs"
    and T: "T = Thread (thread_props.truncate t) cs"
    by (auto split: option.splits sum.splits)
  from Suc.prems(2) consider "n = T" | c where "c \<in> set cs" "n \<in> set (subthreads c)"
    unfolding T by (auto simp: subthreads_Thread)
  then show ?case
  proof cases
    case 1
    with t T show ?thesis by auto
  next
    case 2
    from mapE_Inr[OF cs 2(1)] obtain x where "resolve f ths x = Inr c" by blast
    from Suc.IH[OF this 2(2)] show ?thesis .
  qed
qed

lemma forInKeys_set: "set (forInKeys ths) = fst ` set ths"
  by (auto simp: forInKeys_def)

lemma forInKeys_distinct: "distinct (map fst ths) \<Longrightarrow> distinct (forInKeys ths)"
  by (auto simp: forInKeys_def)

lemma child_collapseRoots:
  "(\<exists>t. map_of (collapseRoots ths) k = Some t \<and> x \<in> set (childrenRefs t))
     = (\<exists>t. map_of ths k = Some t \<and> x \<in> set (childrenRefs t))"
  by (cases "map_of ths k") (simp_all add: map_of_collapseRoots)

lemma downPath_collapseRoots: "downPath (collapseRoots ths) k xs = downPath ths k xs"
  by (induction xs arbitrary: k) (simp_all add: child_collapseRoots)

lemma thread0_shape:
  assumes ta: "threadAnnotations fuel as = Inr thread0" and lt: "linkedThreads fuel as = Inr ths"
    and s: "sound as ths" and r: "rooted ths"
  shows "distinct (map threadId (descendants thread0))"
    and "\<forall>n\<in>set (subthreads thread0). visible (props n)"
    and "downPath ths rt xs \<Longrightarrow> map_of ths rt = Some t \<Longrightarrow> parent t = None \<Longrightarrow>
           pathIn thread0 (map (storeKey ths) (rt # xs))"
proof -
  let ?ths = "collapseRoots ths"
  from ta lt obtain cs where cs: "mapE (resolve fuel ?ths) (rootThreadIds ths) = Inr cs"
    and t0: "thread0 = Thread rootProps cs"
    by (auto simp: threadAnnotations_def split: sum.splits)
  from s have c: "consistent ths" and w: "wired as ths" by (simp_all add: sound_def)
  have cc: "consistent ?ths" using c by (rule consistent_collapseRoots)
  have wc: "wired as ?ths" using w by (rule wired_collapseRoots)
  have roots: "level ?ths k 0" if "k \<in> set (rootThreadIds ths)" for k
  proof -
    from that obtain tk where tk: "map_of ths k = Some tk" "\<not> truthy (parent tk)"
      by (auto simp: rootThreadIds_def isRoot_def split: option.splits)
    with consistentD(2)[OF c tk(1)] have "parent tk = None"
      by (cases "parent tk") (auto simp: truthy_simps)
    with tk(1) have "level ths k 0" by (auto intro: level.top)
    then show ?thesis by (rule level_collapseRoots)
  qed
  have d: "distinct (rootThreadIds ths)"
    using w by (simp add: rootThreadIds_def forInKeys_distinct wired_def)
  have sub: "distinct (idsOf c') \<and> (\<forall>x\<in>set (idsOf c'). \<exists>m. reaches ?ths x m k)"
    if "k \<in> set (rootThreadIds ths)" "resolve fuel ?ths k = Inr c'" for k c'
    using tree_distinct[OF that(2) cc wc roots[OF that(1)]] .
  from forest_distinct[OF cs d _ sub, of 0] roots
  have "distinct (concat (map idsOf cs))" by blast
  moreover have "map threadId (descendants thread0) = concat (map idsOf cs)"
    unfolding t0 by (simp add: idsOf_def[abs_def] subthreads_def[abs_def] map_concat comp_def)
  ultimately show "distinct (map threadId (descendants thread0))" by simp
  show "\<forall>n\<in>set (subthreads thread0). visible (props n)"
  proof
    fix n assume "n \<in> set (subthreads thread0)"
    then consider "n = thread0" | c' where "c' \<in> set cs" "n \<in> set (subthreads c')"
      unfolding t0 by (auto simp: subthreads_Thread)
    then show "visible (props n)"
    proof cases
      case 1
      then show ?thesis
        by (simp add: t0 rootProps_def thread_props.truncate_def DEFAULT_THREAD_STATE_def)
    next
      case 2
      from mapE_Inr[OF cs 2(1)] obtain k where "resolve fuel ?ths k = Inr c'" by blast
      from nodes_resolve[OF this 2(2)] obtain x tx where
        "map_of ?ths x = Some tx" "props n = thread_props.truncate tx" by blast
      with wc show "visible (props n)"
        unfolding wired_def by (auto simp: thread_props.truncate_def)
    qed
  qed
  show "pathIn thread0 (map (storeKey ths) (rt # xs))"
    if xs: "downPath ths rt xs" and rt: "map_of ths rt = Some t" "parent t = None"
  proof -
    from rt(1) have "rt \<in> fst ` set ths" by (metis map_of_eq_None_iff option.distinct(1))
    with rt have "rt \<in> set (rootThreadIds ths)"
      by (simp add: rootThreadIds_def isRoot_def forInKeys_set truthy_simps)
    from mapE_Inr_fwd[OF cs this] obtain T where T: "T \<in> set cs" "resolve fuel ?ths rt = Inr T"
      by blast
    from xs have "downPath ?ths rt xs" by (simp add: downPath_collapseRoots)
    from path_resolve[OF T(2) cc this] resolve_key[OF T(2) cc] T(1)
    show ?thesis
      unfolding t0 by (auto simp: storeKey_collapseRoots)
  qed
qed

subsection \<open>What the passes keep\<close>

text \<open>
  Without selection and filters the passes of \<^verbatim>\<open>buildThread\<close> keep the ids below the root
  distinct, and keep every chain of children that holds an annotated thread: the
  pruning removes a top-level thread only if nothing in it is visible.
\<close>

lemma descendants_children:
  "set (descendants t) = (\<Union>c\<in>set (children t). set (subthreads c))"
  by (cases t) (auto simp: subthreads_def)

lemma descendants_trans:
  assumes "c \<in> set (children t)" "n \<in> set (descendants c)"
  shows "n \<in> set (descendants t)"
proof -
  from assms(2) have "n \<in> set (subthreads c)" by (simp add: subthreads_def)
  with assms(1) show ?thesis unfolding descendants_children[of t] by blast
qed

lemma key_mapThread: "key (mapThread t g) = key (g t)"
  by (simp add: key_def props_mapThread)

lemma pathIn_mapThread:
  assumes "\<And>x. key (g x) = key x"
  shows "pathIn t ks \<Longrightarrow> pathIn (mapThread t g) ks"
proof (induction ks arbitrary: t)
  case Nil
  then show ?case by simp
next
  case (Cons k ks)
  then obtain c where c: "c \<in> set (children t)" "key c = k" "pathIn c ks" by auto
  from Cons.IH[OF c(3)] c(1,2) assms show ?case
    by (auto simp: children_mapThread key_mapThread)
qed

lemma pathIn_sortThread: "pathIn t ks \<Longrightarrow> pathIn (sortThread t c r) ks"
proof (induction ks arbitrary: t c)
  case Nil
  then show ?case by simp
next
  case (Cons k ks)
  then obtain x where x: "x \<in> set (children t)" "key x = k" "pathIn x ks" by auto
  have "key (sortThread x r r) = key x" by (simp add: key_def props_sortThread)
  with Cons.IH[OF x(3), of r] x(1,2) show ?case
    by (auto simp: children_sortThread)
qed

lemma key_countRepliesAndDepth: "key (countRepliesAndDepth t d) = key t"
  by (simp add: key_def props_countRepliesAndDepth)

lemma pathIn_countRepliesAndDepth: "pathIn t ks \<Longrightarrow> pathIn (countRepliesAndDepth t d) ks"
proof (induction ks arbitrary: t d)
  case Nil
  then show ?case by simp
next
  case (Cons k ks)
  then obtain x where x: "x \<in> set (children t)" "key x = k" "pathIn x ks" by auto
  from Cons.IH[OF x(3), of "d + 1"] x(1,2) show ?case
    by (auto simp: children_countRepliesAndDepth key_countRepliesAndDepth)
qed

lemma pathIn_setTotalChildren: "pathIn (setTotalChildren t) ks = pathIn t ks"
  by (cases ks) (simp_all add: setTotalChildren_def)

lemma path_node: "pathIn t ks \<Longrightarrow> k \<in> set ks \<Longrightarrow> \<exists>n\<in>set (descendants t). key n = k"
proof (induction ks arbitrary: t)
  case Nil
  then show ?case by simp
next
  case (Cons k' ks)
  then obtain c where c: "c \<in> set (children t)" "key c = k'" "pathIn c ks" by auto
  show ?case
  proof (cases "k = k'")
    case True
    have "c \<in> set (subthreads c)" by simp
    with c(1,2) True show ?thesis unfolding descendants_children by blast
  next
    case False
    with Cons.prems(2) have "k \<in> set ks" by simp
    from Cons.IH[OF c(3) this] c(1) show ?thesis by (blast intro: descendants_trans)
  qed
qed

lemma hasVisibleChildren_descendant:
  "n \<in> set (descendants t) \<Longrightarrow> visible (props n) \<Longrightarrow> hasVisibleChildren t"
proof (induction t)
  case (Thread p cs)
  from Thread.prems(1) obtain c where c: "c \<in> set cs" "n = c \<or> n \<in> set (descendants c)"
    by (auto simp: subthreads_def)
  with Thread.IH Thread.prems(2) have "visible (props c) \<or> hasVisibleChildren c" by blast
  with c(1) show ?case by (auto simp: list_ex_iff)
qed

lemma pathIn_pruneInvisible:
  assumes "pathIn t ks" "\<exists>k\<in>set ks. fst (snd k) \<noteq> None"
    and "\<forall>n\<in>set (descendants t). annotation (props n) \<noteq> None \<longrightarrow> visible (props n)"
  shows "pathIn (pruneInvisible t) ks"
proof (cases ks)
  case Nil
  then show ?thesis by simp
next
  case (Cons k ks')
  with assms(1) obtain c where c: "c \<in> set (children t)" "key c = k" "pathIn c ks'" by auto
  from assms(2) obtain k' where k': "k' \<in> set ks" "fst (snd k') \<noteq> None" by blast
  have "c \<in> set (subthreads c)" by simp
  with c(1) have cd: "c \<in> set (descendants t)" unfolding descendants_children by blast
  have "visible (props c) \<or> hasVisibleChildren c"
  proof (cases "k' = k")
    case True
    with c(2) k'(2) have "annotation (props c) \<noteq> None" by (auto simp: key_def)
    with cd assms(3) show ?thesis by blast
  next
    case False
    with k'(1) Cons have "k' \<in> set ks'" by simp
    from path_node[OF c(3) this] obtain m where m: "m \<in> set (descendants c)" "key m = k'" by blast
    from m(2) k'(2) have "annotation (props m) \<noteq> None" by (auto simp: key_def)
    with descendants_trans[OF c(1) m(1)] assms(3) have "visible (props m)" by blast
    from hasVisibleChildren_descendant[OF m(1) this] show ?thesis by simp
  qed
  with c have "c \<in> set (children (pruneInvisible t))" by (simp add: pruneInvisible_def)
  with c(2,3) show ?thesis unfolding Cons by auto
qed

lemma idsBelow_Thread:
  "idsBelow (Thread p cs) = concat (map (\<lambda>c. threadId c # idsBelow c) cs)"
  by (simp add: idsBelow_def map_concat comp_def)

lemma ids_mapThread:
  assumes "\<And>x. threadId (g x) = threadId x"
  shows "idsBelow (mapThread t g) = idsBelow t"
proof (induction t)
  case (Thread p cs)
  have id: "threadId (mapThread c g) = threadId c" for c
    using assms[of c] by (simp add: threadId_def props_mapThread)
  have "map (\<lambda>c. threadId (mapThread c g) # idsBelow (mapThread c g)) cs
      = map (\<lambda>c. threadId c # idsBelow c) cs"
    by (rule map_cong[OF refl]) (simp add: id Thread.IH)
  then have "concat (map (\<lambda>c. threadId (mapThread c g) # idsBelow (mapThread c g)) cs)
      = concat (map (\<lambda>c. threadId c # idsBelow c) cs)"
    by (rule arg_cong)
  then show ?case
    unfolding mapThread.simps idsBelow_Thread map_map comp_def .
qed

lemma ids_countRepliesAndDepth: "idsBelow (countRepliesAndDepth t d) = idsBelow t"
proof (induction t arbitrary: d)
  case (Thread p cs)
  have id: "threadId (countRepliesAndDepth c e) = threadId c" for c e
    by (simp add: threadId_def props_countRepliesAndDepth)
  obtain p' where T: "countRepliesAndDepth (Thread p cs) d
      = Thread p' (map (\<lambda>c. countRepliesAndDepth c (d + 1)) cs)"
    by (simp add: Let_def)
  have "map (\<lambda>c. threadId (countRepliesAndDepth c (d + 1)) # idsBelow (countRepliesAndDepth c (d + 1))) cs
      = map (\<lambda>c. threadId c # idsBelow c) cs"
    by (rule map_cong[OF refl]) (simp add: id Thread.IH)
  then have "concat (map (\<lambda>c. threadId (countRepliesAndDepth c (d + 1))
        # idsBelow (countRepliesAndDepth c (d + 1))) cs)
      = concat (map (\<lambda>c. threadId c # idsBelow c) cs)"
    by (rule arg_cong)
  then show ?case
    unfolding T idsBelow_Thread map_map comp_def .
qed

lemma mset_concat_map:
  "mset (concat (map f xs)) = (\<Sum>x\<in>#mset xs. mset (f x))"
  by (induction xs) simp_all

lemma ids_sortThread: "mset (idsBelow (sortThread t c r)) = mset (idsBelow t)"
proof (induction t arbitrary: c)
  case (Thread p cs)
  define F where "F x = mset (threadId x # idsBelow x)" for x
  have id: "threadId (sortThread x r r) = threadId x" for x
    by (simp add: threadId_def props_sortThread)
  have "mset (idsBelow (sortThread (Thread p cs) c r))
      = (\<Sum>x\<in>#mset (sort_threads (map (\<lambda>x. sortThread x r r) cs) c). F x)"
    unfolding sortThread.simps idsBelow_Thread mset_concat_map F_def ..
  also have "\<dots> = (\<Sum>x\<in>#mset cs. F (sortThread x r r))"
    unfolding mset_sort_threads mset_map multiset.map_comp comp_def ..
  also have "\<dots> = (\<Sum>x\<in>#mset cs. F x)"
  proof (rule arg_cong[where f = sum_mset], rule image_mset_cong)
    fix x assume "x \<in># mset cs"
    then have "x \<in> set cs" by simp
    from Thread.IH[OF this, of r] show "F (sortThread x r r) = F x"
      by (simp add: F_def id)
  qed
  also have "\<dots> = mset (idsBelow (Thread p cs))"
    unfolding idsBelow_Thread mset_concat_map F_def ..
  finally show ?case .
qed

lemma distinct_concat_filter:
  "distinct (concat (map f xs)) \<Longrightarrow> distinct (concat (map f (filter P xs)))"
  by (induction xs) auto

lemma ids_prune:
  assumes "distinct (idsBelow t)"
  shows "distinct (idsBelow (setChildren t (filter P (children t))))"
proof (cases t)
  case (Thread p cs)
  with assms have "distinct (concat (map (\<lambda>c. threadId c # idsBelow c) cs))"
    by (simp only: idsBelow_Thread)
  then have "distinct (concat (map (\<lambda>c. threadId c # idsBelow c) (filter P cs)))"
    by (rule distinct_concat_filter)
  then show ?thesis
    unfolding Thread setChildren_def thread.sel idsBelow_Thread .
qed

lemma idsBelow_setTotalChildren: "idsBelow (setTotalChildren t) = idsBelow t"
  by (cases t) (simp add: setTotalChildren_def idsBelow_def)

lemma key_setVisible: "key (setVisible opts x) = key x"
  by (simp add: key_def setVisible_def)

lemma key_setCollapsed: "key (setCollapsed opts x) = key x"
  by (simp add: key_def setCollapsed_def)

lemma project_keeps:
  assumes opts: "selected opts = []" "threadFilterFn opts = None" "filterFn opts = None"
    and vis: "\<forall>n\<in>set (subthreads t0). visible (props n)"
    and d: "distinct (idsBelow t0)"
    and path: "pathIn t0 ks" "\<exists>k\<in>set ks. fst (snd k) \<noteq> None"
  shows "distinct (idsBelow (project opts t0)) \<and> pathIn (project opts t0) ks"
proof -
  define t3 where "t3 = mapThread t0 (setVisible opts)"
  define t4 where "t4 = pruneInvisible t3"
  define t5 where "t5 = mapThread t4 (setCollapsed opts)"
  define t6 where "t6 = sortThread t5 (sortCompareFn opts) (replySortCompareFn opts)"
  define t7 where "t7 = countRepliesAndDepth t6 (- 1)"
  have t: "project opts t0 = setTotalChildren t7"
    by (simp add: project_def selectThreads_def filterThreads_def opts t7_def t6_def t5_def
          t4_def t3_def)
  have id1: "threadId (setVisible opts x) = threadId x" for x
    using key_setVisible[of opts x] by (simp add: key_def threadId_def)
  have id2: "threadId (setCollapsed opts x) = threadId x" for x
    using key_setCollapsed[of opts x] by (simp add: key_def threadId_def)
  have v3: "\<forall>n\<in>set (descendants t3). annotation (props n) \<noteq> None \<longrightarrow> visible (props n)"
  proof (intro ballI impI)
    fix n assume n: "n \<in> set (descendants t3)" "annotation (props n) \<noteq> None"
    then have "n \<in> set (subthreads t3)" by (simp add: subthreads_def)
    from nodes_mapThread[OF this[unfolded t3_def]] obtain m where
      m: "m \<in> set (subthreads t0)" "props n = props (setVisible opts m)" by blast
    with n(2) vis show "visible (props n)"
      by (auto simp: setVisible_def opts split: option.splits)
  qed
  have p3: "pathIn t3 ks" unfolding t3_def using key_setVisible path(1) by (rule pathIn_mapThread)
  have d3: "distinct (idsBelow t3)" unfolding t3_def using d by (simp add: ids_mapThread[OF id1])
  have p4: "pathIn t4 ks" unfolding t4_def using p3 path(2) v3 by (rule pathIn_pruneInvisible)
  have d4: "distinct (idsBelow t4)" unfolding t4_def pruneInvisible_def using d3 by (rule ids_prune)
  have p5: "pathIn t5 ks" unfolding t5_def using key_setCollapsed p4 by (rule pathIn_mapThread)
  have d5: "distinct (idsBelow t5)" unfolding t5_def using d4 by (simp add: ids_mapThread[OF id2])
  have p6: "pathIn t6 ks" unfolding t6_def using p5 by (rule pathIn_sortThread)
  have d6: "distinct (idsBelow t6)"
    using d5 mset_eq_imp_distinct_iff[OF ids_sortThread[of t5 "sortCompareFn opts" "replySortCompareFn opts"]]
    by (simp add: t6_def)
  have p7: "pathIn t7 ks" unfolding t7_def using p6 by (rule pathIn_countRepliesAndDepth)
  have d7: "distinct (idsBelow t7)" unfolding t7_def using d6 by (simp add: ids_countRepliesAndDepth)
  from p7 d7 show ?thesis by (simp add: t pathIn_setTotalChildren idsBelow_setTotalChildren)
qed

lemma path_last_two:
  "pathIn t (ks @ [k1, k2]) \<Longrightarrow>
     \<exists>n\<in>set (descendants t). key n = k1 \<and> (\<exists>c\<in>set (children n). key c = k2)"
proof (induction ks arbitrary: t)
  case Nil
  then obtain n c where "n \<in> set (children t)" "key n = k1" "c \<in> set (children n)" "key c = k2"
    by auto
  moreover have "n \<in> set (subthreads n)" by simp
  ultimately show ?case unfolding descendants_children[of t] by blast
next
  case (Cons k ks)
  then obtain x where x: "x \<in> set (children t)" "pathIn x (ks @ [k1, k2])" by auto
  from Cons.IH[OF x(2)] x(1) show ?case by (blast intro: descendants_trans)
qed

lemma path_top_last:
  assumes "pathIn t (k # ks)" "ks \<noteq> []"
  shows "\<exists>top\<in>set (children t). key top = k \<and> (\<exists>n\<in>set (descendants top). key n = last ks)"
proof -
  from assms(1) obtain top where top: "top \<in> set (children t)" "key top = k" "pathIn top ks"
    by auto
  from path_node[OF top(3), of "last ks"] assms(2) top(1,2) show ?thesis by auto
qed

lemma filter_singleton:
  "distinct (map f xs) \<Longrightarrow> x \<in> set xs \<Longrightarrow> filter (\<lambda>y. f y = f x) xs = [x]"
proof (induction xs)
  case Nil
  then show ?case by simp
next
  case (Cons y ys)
  show ?case
  proof (cases "x = y")
    case True
    have "f y \<notin> f ` set ys" using Cons.prems(1) by simp
    then have "\<forall>z\<in>set ys. f z \<noteq> f x" unfolding True by (metis imageI)
    then have "filter (\<lambda>y. f y = f x) ys = []" by (simp add: filter_empty_conv)
    with True show ?thesis by simp
  next
    case False
    with Cons.prems have "x \<in> set ys" "f y \<noteq> f x" by auto
    with Cons.IH Cons.prems(1) show ?thesis by simp
  qed
qed

lemma reaches_links:
  "reaches ths x m k \<Longrightarrow> wired as ths \<Longrightarrow> (x, k) \<in> (claimedLinks as)\<^sup>*"
proof (induction rule: reaches.induct)
  case (here x t)
  then show ?case by simp
next
  case (up x t q m k)
  from up.prems up.hyps(1,2) have "(x, q) \<in> claimedLinks as" unfolding wired_def by blast
  from this up.IH[OF up.prems] show ?case by (rule converse_rtrancl_into_rtrancl)
qed

section \<open>Unbounded recursion in the cycle guard\<close>

text \<open>
  A thread that is its own parent keeps \<^verbatim>\<open>hasPathToRoot\<close> walking for ever: no number of
  calls is enough, whichever other thread the walk is made for.
\<close>

lemma hasPathToRoot_self_parent:
  "map_of ths p = Some t \<Longrightarrow> parent t = Some p \<Longrightarrow> p \<noteq> [] \<Longrightarrow> i \<noteq> p
   \<Longrightarrow> hasPathToRoot n ths i p = Inl OutOfFuel"
  by (induction n) (simp_all add: getThread_def)

text \<open>
  Claim C1 says that \<^verbatim>\<open>buildThread\<close> completes on every input and never recurses
  without bound, whatever dangling or circular ids the \<^verbatim>\<open>references\<close> hold. The code
  does not: for the single annotation \<^verbatim>\<open>{id: 'r', $tag: 't', references: ['p', 'p']}\<close>
  the placeholder \<^verbatim>\<open>p\<close> is made its own parent (the guard compares the parents on the
  chain with \<^verbatim>\<open>id\<close>, never \<^verbatim>\<open>ancestorId\<close> itself), and the walk from \<^verbatim>\<open>r\<close> up to
  \<^verbatim>\<open>p\<close> then never ends: whatever the number of calls allowed, it is used up.
  (Without a repeated, empty or self-naming reference the build does return:
  \<open>buildThread_returns\<close>.)
\<close>

theorem repeated_reference_never_returns:
  "\<forall>fuel. buildThread fuel
      [\<lparr>id_ann = Some ''r'', tag = ''t'', references = Some [''p'', ''p''], created = ''''\<rparr>]
      defaultOpts = Inl OutOfFuel"
proof
  fix fuel
  let ?a = "\<lparr>id_ann = Some ''r'', tag = ''t'', references = Some [''p'', ''p''], created = ''''\<rparr>"
  let ?r = "\<lparr>id_thr = ''r'', annotation = Some ?a, parent = None, visible = True,
             collapsed = False, replyCount = 0, depth = 0, totalChildren = None,
             childrenRefs = []\<rparr>"
  let ?p = "\<lparr>id_thr = ''p'', annotation = None, parent = Some ''p'', visible = True,
             collapsed = False, replyCount = 0, depth = 0, totalChildren = None,
             childrenRefs = [''p'']\<rparr>"
  have walk: "hasPathToRoot n [(''r'', ?r), (''p'', ?p)] ''r'' ''p'' = Inl OutOfFuel" for n
    by (rule hasPathToRoot_self_parent[where t = ?p]) simp_all
  have "setParent fuel [(''r'', ?r)] ''r'' [''p'', ''p''] = Inl OutOfFuel"
    by (cases fuel) (simp_all add: setParent.simps store_defs walk)
  then show "buildThread fuel [?a] defaultOpts = Inl OutOfFuel"
    by (simp add: build_defs DEFAULT_THREAD_STATE_def)
qed

text \<open>
  Claim C2 says that an entry of \<^verbatim>\<open>references\<close> equal to the annotation's own identity is
  dropped, for an annotation identified by its \<^verbatim>\<open>$tag\<close> as for one with a server
  \<^verbatim>\<open>id\<close>, so that no thread is its own ancestor. The filter compares the entries with
  \<^verbatim>\<open>annotation.id\<close>, not with \<^verbatim>\<open>annotationId(annotation)\<close>: for the unsaved annotation
  \<^verbatim>\<open>{$tag: 't1', references: ['t1']}\<close> nothing is dropped, the thread \<^verbatim>\<open>t1\<close> becomes its
  own parent and its own child, and being no top-level thread it is missing from the
  returned tree.
\<close>

theorem tag_self_reference_not_dropped:
  "parentsOf \<lparr>id_ann = None, tag = ''t1'', references = Some [''t1''], created = ''''\<rparr> = [''t1'']
   \<and> (\<forall>fuel.
        linkedThreads (Suc fuel)
          [\<lparr>id_ann = None, tag = ''t1'', references = Some [''t1''], created = ''''\<rparr>]
        = Inr [(''t1'',
               \<lparr>id_thr = ''t1'',
                annotation = Some \<lparr>id_ann = None, tag = ''t1'', references = Some [''t1''],
                                   created = ''''\<rparr>,
                parent = Some ''t1'', visible = True, collapsed = False, replyCount = 0,
                depth = 0, totalChildren = None, childrenRefs = [''t1'']\<rparr>)]
      \<and> buildThread (Suc fuel)
          [\<lparr>id_ann = None, tag = ''t1'', references = Some [''t1''], created = ''''\<rparr>]
          defaultOpts
        = Inr (Thread
                \<lparr>id_thr = ''root'', annotation = None, parent = None, visible = False,
                 collapsed = False, replyCount = 0, depth = - 1, totalChildren = Some 0\<rparr>
                []))"
  by (simp add: build_defs store_defs setParent.simps tree_defs)

section \<open>Circular references\<close>

text \<open>
  Claim C3 says that for two annotations that name each other as parent, neither thread
  ends up a strict descendant of the other. The first annotation is attached before any
  cycle exists, so it does become the child of the second; only the second attachment
  is refused.
\<close>

theorem mutual_references_make_descendant:
  "buildThread 2
     [\<lparr>id_ann = Some ''1'', tag = ''t1'', references = Some [''2''], created = ''''\<rparr>,
      \<lparr>id_ann = Some ''2'', tag = ''t2'', references = Some [''1''], created = ''''\<rparr>]
     defaultOpts
   = Inr (Thread
       \<lparr>id_thr = ''root'', annotation = None, parent = None,
          visible = False, collapsed = False, replyCount = 2, depth = - 1,
          totalChildren = Some 1\<rparr>
       [Thread
         \<lparr>id_thr = ''2'',
            annotation = Some \<lparr>id_ann = Some ''2'', tag = ''t2'',
                  references = Some [''1''], created = ''''\<rparr>,
            parent = None, visible = True, collapsed = True, replyCount = 1,
            depth = 0, totalChildren = None\<rparr>
         [Thread
           \<lparr>id_thr = ''1'',
              annotation = Some \<lparr>id_ann = Some ''1'', tag = ''t1'',
                    references = Some [''2''], created = ''''\<rparr>,
              parent = Some ''2'', visible = True, collapsed = False,
              replyCount = 0, depth = 1, totalChildren = None\<rparr>
           []]])
   \<and> (case buildThread 2
         [\<lparr>id_ann = Some ''1'', tag = ''t1'', references = Some [''2''], created = ''''\<rparr>,
          \<lparr>id_ann = Some ''2'', tag = ''t2'', references = Some [''1''], created = ''''\<rparr>]
         defaultOpts of
         Inl e \<Rightarrow> []
       | Inr t \<Rightarrow> map (\<lambda>b. (threadId b, map threadId (descendants b))) (children t))
     = [(''2'', [''1''])]"
proof -
  have run: "buildThread 2
     [\<lparr>id_ann = Some ''1'', tag = ''t1'', references = Some [''2''], created = ''''\<rparr>,
      \<lparr>id_ann = Some ''2'', tag = ''t2'', references = Some [''1''], created = ''''\<rparr>]
     defaultOpts
   = Inr (Thread
       \<lparr>id_thr = ''root'', annotation = None, parent = None,
          visible = False, collapsed = False, replyCount = 2, depth = - 1,
          totalChildren = Some 1\<rparr>
       [Thread
         \<lparr>id_thr = ''2'',
            annotation = Some \<lparr>id_ann = Some ''2'', tag = ''t2'',
                  references = Some [''1''], created = ''''\<rparr>,
            parent = None, visible = True, collapsed = True, replyCount = 1,
            depth = 0, totalChildren = None\<rparr>
         [Thread
           \<lparr>id_thr = ''1'',
              annotation = Some \<lparr>id_ann = Some ''1'', tag = ''t1'',
                    references = Some [''2''], created = ''''\<rparr>,
              parent = Some ''2'', visible = True, collapsed = False,
              replyCount = 0, depth = 1, totalChildren = None\<rparr>
           []]])"
    by code_simp
  show ?thesis
    unfolding run by (simp add: threadId_def)
qed

text \<open>
  Claim C3, as amended: for two annotations with distinct, non-empty server ids (none of
  them \<^verbatim>\<open>__proto__\<close>) that name each other as their only reference, \<^verbatim>\<open>buildThread\<close> with
  the default options returns; the thread of the second annotation is the only
  top-level thread, and the thread of the first is its only child. So the second is no
  descendant of the first.
\<close>

theorem mutual_references_first_attaches:
  assumes "a \<noteq> b" "a \<noteq> []" "b \<noteq> []" "a \<noteq> ''__proto__''" "b \<noteq> ''__proto__''"
  shows "buildThread (Suc (Suc fuel))
     [\<lparr>id_ann = Some a, tag = ta, references = Some [b], created = ca\<rparr>,
      \<lparr>id_ann = Some b, tag = tb, references = Some [a], created = cb\<rparr>]
     defaultOpts
   = Inr (Thread
       \<lparr>id_thr = ''root'', annotation = None, parent = None,
          visible = False, collapsed = False, replyCount = 2, depth = - 1,
          totalChildren = Some 1\<rparr>
       [Thread
         \<lparr>id_thr = b,
            annotation = Some \<lparr>id_ann = Some b, tag = tb, references = Some [a], created = cb\<rparr>,
            parent = None, visible = True, collapsed = True, replyCount = 1,
            depth = 0, totalChildren = None\<rparr>
         [Thread
           \<lparr>id_thr = a,
              annotation = Some \<lparr>id_ann = Some a, tag = ta, references = Some [b], created = ca\<rparr>,
              parent = Some b, visible = True, collapsed = False,
              replyCount = 0, depth = 1, totalChildren = None\<rparr>
           []]])"
  using assms
  by (simp add: build_defs store_defs setParent.simps pass_defs)

theorem mutual_references_first_attaches_witness:
  "''a'' \<noteq> ''b'' \<and> ''a'' \<noteq> [] \<and> ''b'' \<noteq> [] \<and> ''a'' \<noteq> ''__proto__'' \<and> ''b'' \<noteq> ''__proto__''
   \<and> buildThread 2
     [\<lparr>id_ann = Some ''a'', tag = ''ta'', references = Some [''b''], created = ''2020''\<rparr>,
      \<lparr>id_ann = Some ''b'', tag = ''tb'', references = Some [''a''], created = ''2021''\<rparr>]
     defaultOpts
   = Inr (Thread
       \<lparr>id_thr = ''root'', annotation = None, parent = None,
          visible = False, collapsed = False, replyCount = 2, depth = - 1,
          totalChildren = Some 1\<rparr>
       [Thread
         \<lparr>id_thr = ''b'',
            annotation = Some \<lparr>id_ann = Some ''b'', tag = ''tb'', references = Some [''a''],
                               created = ''2021''\<rparr>,
            parent = None, visible = True, collapsed = True, replyCount = 1,
            depth = 0, totalChildren = None\<rparr>
         [Thread
           \<lparr>id_thr = ''a'',
              annotation = Some \<lparr>id_ann = Some ''a'', tag = ''ta'', references = Some [''b''],
                                 created = ''2020''\<rparr>,
              parent = Some ''b'', visible = True, collapsed = False,
              replyCount = 0, depth = 1, totalChildren = None\<rparr>
           []]])"
  using mutual_references_first_attaches
    [of "''a''" "''b''" 0 "''ta''" "''2020''" "''tb''" "''2021''"]
  by (simp add: numeral_2_eq_2)

section \<open>Reply counts and depths\<close>

text \<open>
  Claim C4: in every tree returned by \<^verbatim>\<open>buildThread\<close>, the \<^verbatim>\<open>replyCount\<close> of every
  thread, the root included, is the number of its strict descendants, which is the sum
  over its children of one plus the child's \<^verbatim>\<open>replyCount\<close>.
\<close>

theorem replyCount_counts_descendants:
  assumes "buildThread fuel annotations opts = Inr t" and "n \<in> set (subthreads t)"
  shows "replyCount (props n) = int (length (descendants n))
       \<and> replyCount (props n) = (\<Sum>c\<leftarrow>children n. 1 + replyCount (props c))"
proof -
  from assms(1) obtain t0 where "t = project opts t0"
    by (auto simp: buildThread_def split: sum.splits if_splits)
  then obtain t6 where t: "t = setTotalChildren (countRepliesAndDepth t6 (- 1))"
    using project_shape by metis
  have counted: "replyCount (props (countRepliesAndDepth t' d)) = int (length (descendants (countRepliesAndDepth t' d)))
       \<and> replyCount (props (countRepliesAndDepth t' d)) = (\<Sum>c\<leftarrow>children (countRepliesAndDepth t' d). 1 + replyCount (props c))" for t' d
    using replyCount_descendants[of t' d] by (simp add: props_countRepliesAndDepth)
  from assms(2) consider "n = setTotalChildren (countRepliesAndDepth t6 (- 1))"
    | "n \<in> set (descendants (countRepliesAndDepth t6 (- 1)))"
    unfolding t using subthreads_setTotalChildren by blast
  then show ?thesis
  proof cases
    case 1
    have "descendants n = descendants (countRepliesAndDepth t6 (- 1))"
      unfolding 1 by (cases "countRepliesAndDepth t6 (- 1)") (simp add: setTotalChildren_def)
    moreover have "replyCount (props n) = replyCount (props (countRepliesAndDepth t6 (- 1)))"
      "children n = children (countRepliesAndDepth t6 (- 1))"
      unfolding 1 by (simp_all add: setTotalChildren_def)
    ultimately show ?thesis using counted[of t6 "- 1"] by simp
  next
    case 2
    then have "n \<in> set (subthreads (countRepliesAndDepth t6 (- 1)))"
      by (simp add: subthreads_def)
    then obtain t' d' where n: "n = countRepliesAndDepth t' d'"
      using subthreads_countRepliesAndDepth by blast
    show ?thesis unfolding n by (rule counted)
  qed
qed

theorem replyCount_counts_descendants_witness:
  "\<exists>t n. buildThread 2
       [\<lparr>id_ann = Some ''1'', tag = ''t1'', references = None, created = ''2020-01-01''\<rparr>,
        \<lparr>id_ann = Some ''2'', tag = ''t2'', references = Some [''1''], created = ''2020-01-03''\<rparr>,
        \<lparr>id_ann = Some ''3'', tag = ''t3'', references = Some [''1''], created = ''2020-01-02''\<rparr>]
       defaultOpts = Inr t
     \<and> n \<in> set (subthreads t) \<and> threadId n = ''1''
     \<and> replyCount (props n) = int (length (descendants n))
     \<and> replyCount (props n) = (\<Sum>c\<leftarrow>children n. 1 + replyCount (props c))
     \<and> replyCount (props n) = 2"
proof -
  let ?c3 = "Thread
           \<lparr>id_thr = ''3'',
              annotation = Some \<lparr>id_ann = Some ''3'', tag = ''t3'',
                    references = Some [''1''], created = ''2020-01-02''\<rparr>,
              parent = Some ''1'', visible = True, collapsed = False,
              replyCount = 0, depth = 1, totalChildren = None\<rparr> []"
  let ?c2 = "Thread
           \<lparr>id_thr = ''2'',
              annotation = Some \<lparr>id_ann = Some ''2'', tag = ''t2'',
                    references = Some [''1''], created = ''2020-01-03''\<rparr>,
              parent = Some ''1'', visible = True, collapsed = False,
              replyCount = 0, depth = 1, totalChildren = None\<rparr> []"
  let ?n = "Thread
         \<lparr>id_thr = ''1'',
            annotation = Some \<lparr>id_ann = Some ''1'', tag = ''t1'', references = None,
                  created = ''2020-01-01''\<rparr>,
            parent = None, visible = True, collapsed = True, replyCount = 2,
            depth = 0, totalChildren = None\<rparr> [?c3, ?c2]"
  let ?t = "Thread
       \<lparr>id_thr = ''root'', annotation = None, parent = None,
          visible = False, collapsed = False, replyCount = 3, depth = - 1,
          totalChildren = Some 1\<rparr> [?n]"
  have run: "buildThread 2
       [\<lparr>id_ann = Some ''1'', tag = ''t1'', references = None, created = ''2020-01-01''\<rparr>,
        \<lparr>id_ann = Some ''2'', tag = ''t2'', references = Some [''1''], created = ''2020-01-03''\<rparr>,
        \<lparr>id_ann = Some ''3'', tag = ''t3'', references = Some [''1''], created = ''2020-01-02''\<rparr>]
       defaultOpts = Inr ?t"
    by code_simp
  have mem: "?n \<in> set (subthreads ?t)"
    by (simp add: subthreads_def)
  note replyCount_counts_descendants[OF run mem]
  with run mem show ?thesis
    by (intro exI[of _ ?t] exI[of _ ?n]) (simp add: threadId_def)
qed

text \<open>
  Claim C5: in every tree returned by \<^verbatim>\<open>buildThread\<close> the root has depth \<open>-1\<close>, every
  child is one deeper than its parent, and so the top-level threads, their replies and
  the replies to those have depths 0, 1 and 2.
\<close>

theorem depth_is_parent_depth_plus_one:
  assumes "buildThread fuel annotations opts = Inr t"
  shows "depth (props t) = - 1
       \<and> (\<forall>n\<in>set (subthreads t). \<forall>c\<in>set (children n). depth (props c) = depth (props n) + 1)
       \<and> (\<forall>c1\<in>set (children t). depth (props c1) = 0
            \<and> (\<forall>c2\<in>set (children c1). depth (props c2) = 1
                 \<and> (\<forall>c3\<in>set (children c2). depth (props c3) = 2)))"
proof -
  from assms(1) obtain t0 where "t = project opts t0"
    by (auto simp: buildThread_def split: sum.splits if_splits)
  then obtain t6 where t: "t = setTotalChildren (countRepliesAndDepth t6 (- 1))"
    using project_shape by metis
  have step: "\<forall>c\<in>set (children (countRepliesAndDepth t' d)).
      depth (props c) = depth (props (countRepliesAndDepth t' d)) + 1" for t' d
    by (simp add: props_countRepliesAndDepth children_countRepliesAndDepth)
  have root: "depth (props t) = - 1"
    unfolding t by (simp add: setTotalChildren_def props_countRepliesAndDepth)
  have all: "\<forall>c\<in>set (children n). depth (props c) = depth (props n) + 1"
    if "n \<in> set (subthreads t)" for n
  proof -
    from that consider "n = setTotalChildren (countRepliesAndDepth t6 (- 1))"
      | "n \<in> set (descendants (countRepliesAndDepth t6 (- 1)))"
      unfolding t using subthreads_setTotalChildren by blast
    then show ?thesis
    proof cases
      case 1
      have "depth (props n) = depth (props (countRepliesAndDepth t6 (- 1)))"
        "children n = children (countRepliesAndDepth t6 (- 1))"
        unfolding 1 by (simp_all add: setTotalChildren_def)
      then show ?thesis using step[of t6 "- 1"] by simp
    next
      case 2
      then have "n \<in> set (subthreads (countRepliesAndDepth t6 (- 1)))"
        by (simp add: subthreads_def)
      then obtain t' d' where n: "n = countRepliesAndDepth t' d'"
        using subthreads_countRepliesAndDepth by blast
      show ?thesis unfolding n by (rule step)
    qed
  qed
  have self: "t \<in> set (subthreads t)" by (simp add: subthreads_def)
  have chain: "depth (props c1) = 0
      \<and> (\<forall>c2\<in>set (children c1). depth (props c2) = 1
           \<and> (\<forall>c3\<in>set (children c2). depth (props c3) = 2))"
    if c1: "c1 \<in> set (children t)" for c1
  proof -
    have s1: "c1 \<in> set (subthreads t)" using children_subthreads[OF self c1] .
    have d1: "depth (props c1) = 0" using all[OF self] c1 root by simp
    have "depth (props c2) = 1 \<and> (\<forall>c3\<in>set (children c2). depth (props c3) = 2)"
      if c2: "c2 \<in> set (children c1)" for c2
    proof -
      have s2: "c2 \<in> set (subthreads t)" using children_subthreads[OF s1 c2] .
      have d2: "depth (props c2) = 1" using all[OF s1] c2 d1 by simp
      then show ?thesis using all[OF s2] by simp
    qed
    with d1 show ?thesis by blast
  qed
  from root all chain show ?thesis by blast
qed

theorem depth_is_parent_depth_plus_one_witness:
  "\<exists>t c1 c2 c3. buildThread 3
       [\<lparr>id_ann = Some ''1'', tag = ''t1'', references = None, created = ''2020-01-01''\<rparr>,
        \<lparr>id_ann = Some ''2'', tag = ''t2'', references = Some [''1''], created = ''2020-01-02''\<rparr>,
        \<lparr>id_ann = Some ''3'', tag = ''t3'', references = Some [''1'', ''2''], created = ''2020-01-03''\<rparr>]
       defaultOpts = Inr t
     \<and> children t = [c1] \<and> children c1 = [c2] \<and> children c2 = [c3]
     \<and> map threadId [t, c1, c2, c3] = [''root'', ''1'', ''2'', ''3'']
     \<and> depth (props t) = - 1 \<and> depth (props c1) = 0 \<and> depth (props c2) = 1
     \<and> depth (props c3) = 2"
proof -
  let ?c3 = "Thread
             \<lparr>id_thr = ''3'',
                annotation = Some \<lparr>id_ann = Some ''3'', tag = ''t3'',
                      references = Some [''1'', ''2''], created = ''2020-01-03''\<rparr>,
                parent = Some ''2'', visible = True, collapsed = False,
                replyCount = 0, depth = 2, totalChildren = None\<rparr> []"
  let ?c2 = "Thread
           \<lparr>id_thr = ''2'',
              annotation = Some \<lparr>id_ann = Some ''2'', tag = ''t2'',
                    references = Some [''1''], created = ''2020-01-02''\<rparr>,
              parent = Some ''1'', visible = True, collapsed = False,
              replyCount = 1, depth = 1, totalChildren = None\<rparr> [?c3]"
  let ?c1 = "Thread
         \<lparr>id_thr = ''1'',
            annotation = Some \<lparr>id_ann = Some ''1'', tag = ''t1'', references = None,
                  created = ''2020-01-01''\<rparr>,
            parent = None, visible = True, collapsed = True, replyCount = 2,
            depth = 0, totalChildren = None\<rparr> [?c2]"
  let ?t = "Thread
       \<lparr>id_thr = ''root'', annotation = None, parent = None,
          visible = False, collapsed = False, replyCount = 3, depth = - 1,
          totalChildren = Some 1\<rparr> [?c1]"
  have run: "buildThread 3
       [\<lparr>id_ann = Some ''1'', tag = ''t1'', references = None, created = ''2020-01-01''\<rparr>,
        \<lparr>id_ann = Some ''2'', tag = ''t2'', references = Some [''1''], created = ''2020-01-02''\<rparr>,
        \<lparr>id_ann = Some ''3'', tag = ''t3'', references = Some [''1'', ''2''], created = ''2020-01-03''\<rparr>]
       defaultOpts = Inr ?t"
    by code_simp
  note depth_is_parent_depth_plus_one[OF run]
  with run show ?thesis
    by (intro exI[of _ ?t] exI[of _ ?c1] exI[of _ ?c2] exI[of _ ?c3]) (simp add: threadId_def)
qed

section \<open>Placeholders for missing parents\<close>

text \<open>
  Claim C6 says that a reply whose last reference names an id absent from the input is
  attached as the child of a placeholder with that id. When the placeholder's own
  ancestors lead back to the reply, the cycle guard refuses the attachment: here the
  reply \<^verbatim>\<open>a\<close> (references \<^verbatim>\<open>['b', 'p']\<close>) already is the parent of \<^verbatim>\<open>b\<close>, the placeholder
  \<^verbatim>\<open>p\<close> is attached below \<^verbatim>\<open>b\<close>, and \<^verbatim>\<open>a\<close> stays top-level while \<^verbatim>\<open>p\<close> has no child.
\<close>

theorem placeholder_without_the_reply:
  "buildThread 3
     [\<lparr>id_ann = Some ''b'', tag = ''t1'', references = Some [''a''], created = ''''\<rparr>,
      \<lparr>id_ann = Some ''a'', tag = ''t2'', references = Some [''b'', ''p''], created = ''''\<rparr>]
     defaultOpts
   = Inr (Thread
       \<lparr>id_thr = ''root'', annotation = None, parent = None,
          visible = False, collapsed = False, replyCount = 3, depth = - 1,
          totalChildren = Some 1\<rparr>
       [Thread
         \<lparr>id_thr = ''a'',
            annotation = Some \<lparr>id_ann = Some ''a'', tag = ''t2'',
                  references = Some [''b'', ''p''], created = ''''\<rparr>,
            parent = None, visible = True, collapsed = True, replyCount = 2,
            depth = 0, totalChildren = None\<rparr>
         [Thread
           \<lparr>id_thr = ''b'',
              annotation = Some \<lparr>id_ann = Some ''b'', tag = ''t1'',
                    references = Some [''a''], created = ''''\<rparr>,
              parent = Some ''a'', visible = True, collapsed = False,
              replyCount = 1, depth = 1, totalChildren = None\<rparr>
           [Thread
             \<lparr>id_thr = ''p'', annotation = None, parent = Some ''b'',
                visible = False, collapsed = False, replyCount = 0,
                depth = 2, totalChildren = None\<rparr>
             []]]])"
  by code_simp

text \<open>
  Claim C6, as amended. Let the reference lists of the input be plain (no list holds the
  annotation's own identity, a repeated id, the empty string or the name of a property
  of \<^verbatim>\<open>Object.prototype\<close>, and no identity is \<^verbatim>\<open>__proto__\<close>), let the identities be
  distinct, and let the last reference \<open>p\<close> of a reply \<open>r\<close> be the identity of no
  annotation. Then \<^verbatim>\<open>buildThread\<close> with the default options returns a tree with exactly one
  thread of id \<open>p\<close> below the root, and that thread has no annotation. Either the thread of
  the reply is one of its children, with \<open>p\<close> as its parent, or the thread of the reply is
  a top-level thread and the placeholder is one of its descendants. The second case
  needs circular references: if the links that the reference lists ask for do not lead
  from \<open>p\<close> up to the reply, the reply is attached.
\<close>

theorem missing_parent_placeholder:
  assumes wf: "\<forall>a\<in>set annotations. plainReferences a"
    and ids: "distinct (map annotationId annotations)"
    and r: "r \<in> set annotations" "parentsOf r \<noteq> []"
    and p: "last (parentsOf r) \<notin> annotationId ` set annotations"
  shows "\<exists>fuel t n. (\<forall>k. buildThread (fuel + k) annotations defaultOpts = Inr t)
     \<and> filter (\<lambda>x. threadId x = last (parentsOf r)) (descendants t) = [n]
     \<and> annotation (props n) = None
     \<and> ((\<exists>c\<in>set (children n). threadId c = annotationId r \<and> annotation (props c) = Some r
              \<and> parent (props c) = Some (last (parentsOf r)))
        \<or> (\<exists>top\<in>set (children t). threadId top = annotationId r \<and> annotation (props top) = Some r
              \<and> parent (props top) = None \<and> n \<in> set (descendants top)))
     \<and> ((last (parentsOf r), annotationId r) \<notin> (claimedLinks annotations)\<^sup>+ \<longrightarrow>
          (\<exists>c\<in>set (children n). threadId c = annotationId r \<and> annotation (props c) = Some r
              \<and> parent (props c) = Some (last (parentsOf r))))"
proof -
  define i where "i = annotationId r"
  define q where "q = last (parentsOf r)"
  have wf': "\<forall>a\<in>set annotations. annotationId a \<noteq> ''__proto__''
      \<and> annotationId a \<notin> set (parentsOf a) \<and> distinct (parentsOf a) \<and> [] \<notin> set (parentsOf a)
      \<and> (\<forall>r\<in>set (parentsOf a). r \<notin> set objectPrototypeProps)"
    using wf by (simp add: plainReferences_def)
  then have e: "\<forall>a\<in>set annotations. [] \<notin> set (parentsOf a)" by simp
  have "expanded defaultOpts ''hasOwnProperty'' = None" by (simp add: defaultOpts_def)
  from buildThread_returns[OF wf' this] obtain fuel t
    where all: "\<And>k. buildThread (fuel + k) annotations defaultOpts = Inr t" by blast
  from all[of 0] obtain t0 where ta: "threadAnnotations fuel annotations = Inr t0"
    and t: "t = project defaultOpts t0"
    by (auto simp: buildThread_def split: sum.splits if_splits)
  from ta obtain ths where lt: "linkedThreads fuel annotations = Inr ths"
    by (auto simp: threadAnnotations_def split: sum.splits)
  from r(1) obtain before after where split: "annotations = before @ r # after"
    by (auto dest: split_list)
  from reply_outcome[OF e ids split r(2) lt]
  have s: "sound annotations ths" and o: "outcome ths i q"
    and tr: "\<exists>tr. map_of ths i = Some tr \<and> annotation tr = Some r"
    by (simp_all add: i_def q_def)
  from s have c: "consistent ths" and w: "wired annotations ths" by (simp_all add: sound_def)
  have ro: "rooted ths" by (rule rooted_linkedThreads[OF lt wf'])
  note shape = thread0_shape[OF ta lt s ro]
  have opts: "selected defaultOpts = []" "threadFilterFn defaultOpts = None"
      "filterFn defaultOpts = None"
    by (simp_all add: defaultOpts_def)
  from shape(1) have d0: "distinct (idsBelow t0)" by (simp add: idsBelow_def)
  from o obtain ti tp where ti1: "map_of ths i = Some ti"
    and tp: "map_of ths q = Some tp"
    and alt: "parent ti = Some q
            \<or> parent ti = None
              \<and> (\<exists>x m tx. reaches ths q m x \<and> map_of ths x = Some tx \<and> parent tx = Some i)"
    unfolding outcome_def by blast
  from tr ti1 have ti: "map_of ths i = Some ti" "annotation ti = Some r" by auto
  have ap: "annotation tp = None"
  proof (cases "annotation tp")
    case (Some a)
    with w tp have "a \<in> set annotations" "annotationId a = q" unfolding wired_def by blast+
    then have "q \<in> annotationId ` set annotations" by blast
    with p show ?thesis by (simp add: q_def)
  qed simp
  have kp: "storeKey ths q = (q, None, parent tp)" using tp ap by (simp add: storeKey_def)
  have ki: "storeKey ths i = (i, Some r, parent ti)" using ti by (simp add: storeKey_def)
  have one: "filter (\<lambda>x. threadId x = q) (descendants t) = [n]"
    if "n \<in> set (descendants t)" "key n = storeKey ths q" "distinct (idsBelow t)" for n
  proof -
    from that(2) kp have "threadId n = q" by (simp add: key_def threadId_def)
    with filter_singleton[of threadId "descendants t" n] that(1,3) show ?thesis
      by (simp add: idsBelow_def)
  qed
  define attached where "attached n = (\<exists>c\<in>set (children n). threadId c = i
        \<and> annotation (props c) = Some r \<and> parent (props c) = Some q)" for n
  define below where "below n = (\<exists>top\<in>set (children t). threadId top = i
        \<and> annotation (props top) = Some r \<and> parent (props top) = None
        \<and> n \<in> set (descendants top))" for n
  have cases: "\<exists>n. filter (\<lambda>x. threadId x = q) (descendants t) = [n] \<and> annotation (props n) = None
      \<and> (attached n \<or> below n)
      \<and> ((q, i) \<notin> (claimedLinks annotations)\<^sup>+ \<longrightarrow> attached n)"
    using alt
  proof
    assume pa: "parent ti = Some q"
    from tp ro obtain l where "level ths q l" unfolding rooted_def by blast
    from level_reaches[OF this] obtain rt trt where rt: "reaches ths q l rt"
      "map_of ths rt = Some trt" "parent trt = None" by blast
    from reaches_downPath[OF rt(1) w] obtain xs where xs: "downPath ths rt xs" "last (rt # xs) = q"
      by blast
    from w ti(1) pa obtain tq where "map_of ths q = Some tq" "i \<in> set (childrenRefs tq)"
      unfolding wired_def by blast
    from downPath_snoc[OF xs(1) this(1)[folded xs(2)] this(2)]
    have p0: "pathIn t0 (map (storeKey ths) (rt # xs @ [i]))" using rt(2,3) by (intro shape(3))
    define ys where "ys = butlast (rt # xs)"
    have "rt # xs = ys @ [q]"
      unfolding ys_def using xs(2) by (metis append_butlast_last_id list.distinct(1))
    then have "(rt # xs) @ [i] = ys @ [q, i]" by (simp only: append_assoc append_Cons append_Nil)
    then have "map (storeKey ths) (rt # xs @ [i])
        = map (storeKey ths) ys @ [storeKey ths q, storeKey ths i]"
      by (simp only: append_Cons map_append list.map)
    with p0 have path: "pathIn t0 (map (storeKey ths) ys @ [storeKey ths q, storeKey ths i])"
      by (simp only:)
    have "\<exists>k\<in>set (map (storeKey ths) ys @ [storeKey ths q, storeKey ths i]).
        fst (snd k) \<noteq> None"
      using ki by simp
    from project_keeps[OF opts shape(2) d0 path this]
    have dt: "distinct (idsBelow t)"
      and pt: "pathIn t (map (storeKey ths) ys @ [storeKey ths q, storeKey ths i])"
      by (simp_all add: t)
    from path_last_two[OF pt] obtain n c where n: "n \<in> set (descendants t)" "key n = storeKey ths q"
      and c: "c \<in> set (children n)" "key c = storeKey ths i" by blast
    from c ki pa have "attached n" unfolding attached_def by (auto simp: key_def threadId_def)
    moreover from n(2) kp have "annotation (props n) = None" by (simp add: key_def)
    ultimately show ?thesis using one[OF n dt] by blast
  next
    assume "parent ti = None
              \<and> (\<exists>x m tx. reaches ths q m x \<and> map_of ths x = Some tx \<and> parent tx = Some i)"
    then obtain x m tx where pn: "parent ti = None" and x: "reaches ths q m x"
      "map_of ths x = Some tx" "parent tx = Some i" by blast
    have "reaches ths x (Suc 0) i" by (rule reaches.up[OF x(2,3) reaches.here[OF ti(1)]])
    from reaches_trans[OF x(1) this] have qi: "reaches ths q (Suc m) i" by simp
    from w x(2,3) have "(x, i) \<in> claimedLinks annotations" unfolding wired_def by blast
    with reaches_links[OF x(1) w] have cyc: "(q, i) \<in> (claimedLinks annotations)\<^sup>+" by simp
    from reaches_downPath[OF qi w] obtain xs where xs: "downPath ths i xs" "length xs = Suc m"
      "last (i # xs) = q" by blast
    then have ne: "xs \<noteq> []" and lq: "last xs = q" by auto
    have path: "pathIn t0 (map (storeKey ths) (i # xs))"
      using xs(1) ti(1) pn by (rule shape(3))
    have "\<exists>k\<in>set (map (storeKey ths) (i # xs)). fst (snd k) \<noteq> None" using ki by simp
    from project_keeps[OF opts shape(2) d0 path this]
    have dt: "distinct (idsBelow t)" and pt: "pathIn t (storeKey ths i # map (storeKey ths) xs)"
      by (simp_all add: t)
    from path_top_last[OF pt] ne obtain top n where top: "top \<in> set (children t)"
      "key top = storeKey ths i" and n: "n \<in> set (descendants top)" "key n = storeKey ths q"
      by (auto simp: last_map lq)
    from descendants_trans[OF top(1) n(1)] have nt: "n \<in> set (descendants t)" .
    from top n(1) ki pn have "below n" unfolding below_def by (auto simp: key_def threadId_def)
    moreover from n(2) kp have "annotation (props n) = None" by (simp add: key_def)
    ultimately show ?thesis using one[OF nt n(2) dt] cyc by blast
  qed
  then obtain n where "filter (\<lambda>x. threadId x = q) (descendants t) = [n]"
    "annotation (props n) = None" "attached n \<or> below n"
    "(q, i) \<notin> (claimedLinks annotations)\<^sup>+ \<longrightarrow> attached n" by blast
  with all show ?thesis
    unfolding attached_def below_def i_def q_def by blast
qed

theorem missing_parent_placeholder_witness:
  "plainReferences \<lparr>id_ann = Some ''x'', tag = ''tx'', references = None, created = ''2020''\<rparr>
   \<and> plainReferences
        \<lparr>id_ann = Some ''r'', tag = ''tr'', references = Some [''x'', ''p''], created = ''2021''\<rparr>
   \<and> distinct (map annotationId
        [\<lparr>id_ann = Some ''x'', tag = ''tx'', references = None, created = ''2020''\<rparr>,
         \<lparr>id_ann = Some ''r'', tag = ''tr'', references = Some [''x'', ''p''], created = ''2021''\<rparr>])
   \<and> parentsOf
        \<lparr>id_ann = Some ''r'', tag = ''tr'', references = Some [''x'', ''p''], created = ''2021''\<rparr>
       = [''x'', ''p'']
   \<and> ''p'' \<notin> annotationId ` set
        [\<lparr>id_ann = Some ''x'', tag = ''tx'', references = None, created = ''2020''\<rparr>,
         \<lparr>id_ann = Some ''r'', tag = ''tr'', references = Some [''x'', ''p''], created = ''2021''\<rparr>]
   \<and> (''p'', ''r'') \<notin> (claimedLinks
        [\<lparr>id_ann = Some ''x'', tag = ''tx'', references = None, created = ''2020''\<rparr>,
         \<lparr>id_ann = Some ''r'', tag = ''tr'', references = Some [''x'', ''p''], created = ''2021''\<rparr>])\<^sup>+
   \<and> buildThread 3
        [\<lparr>id_ann = Some ''x'', tag = ''tx'', references = None, created = ''2020''\<rparr>,
         \<lparr>id_ann = Some ''r'', tag = ''tr'', references = Some [''x'', ''p''], created = ''2021''\<rparr>]
        defaultOpts
       = Inr (Thread
           \<lparr>id_thr = ''root'', annotation = None, parent = None,
              visible = False, collapsed = False, replyCount = 3, depth = - 1,
              totalChildren = Some 1\<rparr>
           [Thread
             \<lparr>id_thr = ''x'',
                annotation = Some \<lparr>id_ann = Some ''x'', tag = ''tx'', references = None,
                                   created = ''2020''\<rparr>,
                parent = None, visible = True, collapsed = True, replyCount = 2,
                depth = 0, totalChildren = None\<rparr>
             [Thread
               \<lparr>id_thr = ''p'', annotation = None, parent = Some ''x'',
                  visible = False, collapsed = False, replyCount = 1,
                  depth = 1, totalChildren = None\<rparr>
               [Thread
                 \<lparr>id_thr = ''r'',
                    annotation = Some \<lparr>id_ann = Some ''r'', tag = ''tr'',
                          references = Some [''x'', ''p''], created = ''2021''\<rparr>,
                    parent = Some ''p'', visible = True, collapsed = False,
                    replyCount = 0, depth = 2, totalChildren = None\<rparr>
                 []]]])
   \<and> (\<exists>fuel t n.
        (\<forall>k. buildThread (fuel + k)
           [\<lparr>id_ann = Some ''x'', tag = ''tx'', references = None, created = ''2020''\<rparr>,
            \<lparr>id_ann = Some ''r'', tag = ''tr'', references = Some [''x'', ''p''],
               created = ''2021''\<rparr>]
           defaultOpts = Inr t)
        \<and> filter (\<lambda>x. threadId x = ''p'') (descendants t) = [n]
        \<and> annotation (props n) = None
        \<and> (\<exists>c\<in>set (children n). threadId c = ''r''
              \<and> annotation (props c)
                  = Some \<lparr>id_ann = Some ''r'', tag = ''tr'', references = Some [''x'', ''p''],
                          created = ''2021''\<rparr>
              \<and> parent (props c) = Some ''p''))"
proof -
  let ?x = "\<lparr>id_ann = Some ''x'', tag = ''tx'', references = None, created = ''2020''\<rparr>"
  let ?r = "\<lparr>id_ann = Some ''r'', tag = ''tr'', references = Some [''x'', ''p''],
              created = ''2021''\<rparr>"
  have ps: "parentsOf ?x = []" "parentsOf ?r = [''x'', ''p'']"
    and ids: "annotationId ?x = ''x''" "annotationId ?r = ''r''"
    by (simp_all add: parentsOf_def annotationId_def)
  have plain: "plainReferences ?x" "plainReferences ?r"
    by (simp_all add: plainReferences_def ps ids objectPrototypeProps_def)
  have links: "claimedLinks [?x, ?r] = {(''p'', ''x''), (''r'', ''p'')}"
    by (auto simp: claimedLinks_def ps ids)
  have acyclic: "(''p'', ''r'') \<notin> (claimedLinks [?x, ?r])\<^sup>+"
  proof
    assume "(''p'', ''r'') \<in> (claimedLinks [?x, ?r])\<^sup>+"
    then have "''r'' \<in> Range ((claimedLinks [?x, ?r])\<^sup>+)" by (rule RangeI)
    then have "''r'' \<in> Range (claimedLinks [?x, ?r])" by (simp only: trancl_range)
    then show False unfolding links by simp
  qed
  have run: "buildThread 3 [?x, ?r] defaultOpts
       = Inr (Thread
           \<lparr>id_thr = ''root'', annotation = None, parent = None,
              visible = False, collapsed = False, replyCount = 3, depth = - 1,
              totalChildren = Some 1\<rparr>
           [Thread
             \<lparr>id_thr = ''x'', annotation = Some ?x,
                parent = None, visible = True, collapsed = True, replyCount = 2,
                depth = 0, totalChildren = None\<rparr>
             [Thread
               \<lparr>id_thr = ''p'', annotation = None, parent = Some ''x'',
                  visible = False, collapsed = False, replyCount = 1,
                  depth = 1, totalChildren = None\<rparr>
               [Thread
                 \<lparr>id_thr = ''r'', annotation = Some ?r,
                    parent = Some ''p'', visible = True, collapsed = False,
                    replyCount = 0, depth = 2, totalChildren = None\<rparr>
                 []]]])"
    by code_simp
  have "\<forall>a\<in>set [?x, ?r]. plainReferences a" using plain by simp
  moreover have "distinct (map annotationId [?x, ?r])" by (simp add: ids)
  moreover have "?r \<in> set [?x, ?r]" by simp
  moreover have "parentsOf ?r \<noteq> []" by (simp add: ps)
  moreover have "last (parentsOf ?r) \<notin> annotationId ` set [?x, ?r]" by (simp add: ps ids)
  ultimately have general: "\<exists>fuel t n. (\<forall>k. buildThread (fuel + k) [?x, ?r] defaultOpts = Inr t)
     \<and> filter (\<lambda>x. threadId x = last (parentsOf ?r)) (descendants t) = [n]
     \<and> annotation (props n) = None
     \<and> ((\<exists>c\<in>set (children n). threadId c = annotationId ?r \<and> annotation (props c) = Some ?r
              \<and> parent (props c) = Some (last (parentsOf ?r)))
        \<or> (\<exists>top\<in>set (children t). threadId top = annotationId ?r \<and> annotation (props top) = Some ?r
              \<and> parent (props top) = None \<and> n \<in> set (descendants top)))
     \<and> ((last (parentsOf ?r), annotationId ?r) \<notin> (claimedLinks [?x, ?r])\<^sup>+ \<longrightarrow>
          (\<exists>c\<in>set (children n). threadId c = annotationId ?r \<and> annotation (props c) = Some ?r
              \<and> parent (props c) = Some (last (parentsOf ?r))))"
    by (rule missing_parent_placeholder)
  have last: "last (parentsOf ?r) = ''p''" by (simp add: ps)
  from general acyclic have "\<exists>fuel t n.
        (\<forall>k. buildThread (fuel + k) [?x, ?r] defaultOpts = Inr t)
        \<and> filter (\<lambda>x. threadId x = ''p'') (descendants t) = [n]
        \<and> annotation (props n) = None
        \<and> (\<exists>c\<in>set (children n). threadId c = ''r'' \<and> annotation (props c) = Some ?r
              \<and> parent (props c) = Some ''p'')"
    unfolding last ids by blast
  with plain ps(2) ids acyclic run show ?thesis by simp
qed

section \<open>The sort contract\<close>

text \<open>
  Claim C7: for less-than predicates as comparison functions, every \<^verbatim>\<open>children\<close> list of
  the returned tree is in order, the children of the root by \<^verbatim>\<open>sortCompareFn\<close> and all
  deeper lists by \<^verbatim>\<open>replySortCompareFn\<close>: placeholders come before annotated threads,
  and of two annotated threads the later one is never less than the earlier one. The
  sort rearranges the list it is given and keeps the relative order of the threads its
  comparator reports as equal (two placeholders, or two annotations of which neither is
  less than the other). With the default comparison functions, two top-level annotations
  with the tags \<^verbatim>\<open>b\<close> and \<^verbatim>\<open>a\<close> come out with \<^verbatim>\<open>a\<close> first.
\<close>

theorem sort_contract:
  assumes "lessThanPredicate (sortCompareFn opts)"
    and "lessThanPredicate (replySortCompareFn opts)"
    and "lessThanPredicate cmp"
  shows "(buildThread fuel annotations opts = Inr t \<longrightarrow>
            sortedThread (sortCompareFn opts) (replySortCompareFn opts) t)
       \<and> mset (sort_threads ts cmp) = mset ts
       \<and> sorted_wrt (mayPrecede cmp) (sort_threads ts cmp)
       \<and> (\<forall>k. filter (sameRank cmp k) (sort_threads ts cmp) = filter (sameRank cmp k) ts)
       \<and> (\<forall>x y n.
            tag x = ''b'' \<and> tag y = ''a'' \<and> parentsOf x = [] \<and> parentsOf y = []
            \<and> annotationId x \<noteq> annotationId y
            \<and> annotationId x \<noteq> ''__proto__'' \<and> annotationId y \<noteq> ''__proto__'' \<longrightarrow>
            (\<exists>t'. buildThread (Suc n) [x, y] defaultOpts = Inr t'
               \<and> map (\<lambda>c. annotation (props c)) (children t') = [Some y, Some x]))"
proof -
  have tree: "sortedThread (sortCompareFn opts) (replySortCompareFn opts) t"
    if "buildThread fuel annotations opts = Inr t"
  proof -
    from that obtain t0 where "t = project opts t0"
      by (auto simp: buildThread_def split: sum.splits if_splits)
    then obtain t5 where t: "t = setTotalChildren
        (countRepliesAndDepth (sortThread t5 (sortCompareFn opts) (replySortCompareFn opts)) (- 1))"
      unfolding project_def Let_def by blast
    show ?thesis
      unfolding t
      by (intro sortedThread_setTotalChildren sortedThread_countRepliesAndDepth
            sortedThread_sortThread assms(1,2))
  qed
  show ?thesis
    using tree mset_sort_threads sorted_sort_threads[OF assms(3)]
      stable_sort_threads[OF assms(3)] tags_b_a_sorted
    by blast
qed

theorem sort_contract_witness:
  "lessThanPredicate (sortCompareFn defaultOpts)
   \<and> lessThanPredicate (replySortCompareFn defaultOpts)
   \<and> (\<exists>t. buildThread 1
          [\<lparr>id_ann = Some ''1'', tag = ''b'', references = None, created = ''2020-01-01''\<rparr>,
           \<lparr>id_ann = Some ''2'', tag = ''a'', references = None, created = ''2020-01-02''\<rparr>]
          defaultOpts = Inr t
        \<and> sortedThread (sortCompareFn defaultOpts) (replySortCompareFn defaultOpts) t
        \<and> map threadId (children t) = [''2'', ''1''])"
proof -
  let ?t = "Thread
       \<lparr>id_thr = ''root'', annotation = None, parent = None,
          visible = False, collapsed = False, replyCount = 2, depth = - 1,
          totalChildren = Some 2\<rparr>
       [Thread
         \<lparr>id_thr = ''2'',
            annotation = Some \<lparr>id_ann = Some ''2'', tag = ''a'', references = None,
                               created = ''2020-01-02''\<rparr>,
            parent = None, visible = True, collapsed = True, replyCount = 0,
            depth = 0, totalChildren = None\<rparr>
         [],
        Thread
         \<lparr>id_thr = ''1'',
            annotation = Some \<lparr>id_ann = Some ''1'', tag = ''b'', references = None,
                               created = ''2020-01-01''\<rparr>,
            parent = None, visible = True, collapsed = True, replyCount = 0,
            depth = 0, totalChildren = None\<rparr>
         []]"
  have lt: "lessThanPredicate (sortCompareFn defaultOpts)"
      "lessThanPredicate (replySortCompareFn defaultOpts)"
    by (simp_all add: defaultOpts_def lessThan_tag lessThan_created)
  have run: "buildThread 1
          [\<lparr>id_ann = Some ''1'', tag = ''b'', references = None, created = ''2020-01-01''\<rparr>,
           \<lparr>id_ann = Some ''2'', tag = ''a'', references = None, created = ''2020-01-02''\<rparr>]
          defaultOpts = Inr ?t"
    by code_simp
  from sort_contract[OF lt lt(1), where t = ?t and fuel = 1] run
  have "sortedThread (sortCompareFn defaultOpts) (replySortCompareFn defaultOpts) ?t"
    by blast
  with lt run show ?thesis
    by (intro conjI exI[of _ ?t]) (simp_all add: threadId_def)
qed

section \<open>Forced-visible threads\<close>




section \<open>The root thread\<close>

text \<open>
  Claim C9 says that the returned root always has \<^verbatim>\<open>collapsed = false\<close>, the root never
  being in \<^verbatim>\<open>expanded\<close>. The collapse pass treats the root like any thread: with
  \<^verbatim>\<open>expanded = {root: false}\<close> the root comes back collapsed.
\<close>

theorem root_collapsed_by_expanded_entry:
  "buildThread 0 [] (defaultOpts\<lparr>expanded := [''root'' \<mapsto> False]\<rparr>)
     = Inr (Thread
             \<lparr>id_thr = ''root'', annotation = None, parent = None, visible = False,
              collapsed = True, replyCount = 0, depth = - 1, totalChildren = Some 0\<rparr>
             [])"
  by (simp add: build_defs tree_defs)

text \<open>
  Claim C9, as amended: the root of every returned tree has the id \<^verbatim>\<open>root\<close>, no
  annotation and \<^verbatim>\<open>visible = false\<close>; its \<^verbatim>\<open>collapsed\<close> flag is \<^verbatim>\<open>false\<close> unless
  \<^verbatim>\<open>expanded\<close> has an entry for the key \<^verbatim>\<open>root\<close>, and then it is the negation of that
  entry, as for every other thread.
\<close>

theorem root_invisible_collapsed_by_entry:
  assumes "buildThread fuel annotations opts = Inr t"
  shows "threadId t = ''root'' \<and> annotation (props t) = None \<and> \<not> visible (props t)
       \<and> collapsed (props t) = (case expanded opts ''root'' of Some e \<Rightarrow> \<not> e | None \<Rightarrow> False)"
proof -
  from assms(1) obtain t0 where t: "t = project opts t0" and "threadAnnotations fuel annotations = Inr t0"
    by (auto simp: buildThread_def split: sum.splits if_splits)
  then have t0: "props t0 = rootProps" by (simp add: threadAnnotations_props)
  show ?thesis
    unfolding t project_def Let_def threadId_def
    by (simp add: setTotalChildren_def props_countRepliesAndDepth props_sortThread
          props_mapThread setCollapsed_def setVisible_def t0 rootProps_def
          DEFAULT_THREAD_STATE_def thread_props.truncate_def split: option.split)
qed

theorem root_invisible_collapsed_by_entry_witness:
  "\<exists>t. buildThread 1
         [\<lparr>id_ann = Some ''a1'', tag = ''t1'', references = None, created = ''''\<rparr>]
         (defaultOpts\<lparr>expanded := [''a1'' \<mapsto> True, ''root'' \<mapsto> False]\<rparr>) = Inr t
     \<and> threadId t = ''root'' \<and> annotation (props t) = None \<and> \<not> visible (props t)
     \<and> collapsed (props t) \<and> map threadId (children t) = [''a1'']"
proof -
  let ?t = "Thread
       \<lparr>id_thr = ''root'', annotation = None, parent = None, visible = False,
        collapsed = True, replyCount = 1, depth = - 1, totalChildren = Some 1\<rparr>
       [Thread
         \<lparr>id_thr = ''a1'',
          annotation = Some \<lparr>id_ann = Some ''a1'', tag = ''t1'', references = None,
                             created = ''''\<rparr>,
          parent = None, visible = True, collapsed = False, replyCount = 0, depth = 0,
          totalChildren = None\<rparr>
         []]"
  have run: "buildThread 1
         [\<lparr>id_ann = Some ''a1'', tag = ''t1'', references = None, created = ''''\<rparr>]
         (defaultOpts\<lparr>expanded := [''a1'' \<mapsto> True, ''root'' \<mapsto> False]\<rparr>) = Inr ?t"
    by (simp add: build_defs store_defs setParent.simps tree_defs)
  note root_invisible_collapsed_by_entry[OF run]
  with run show ?thesis
    by (intro exI[of _ ?t]) (simp add: threadId_def)
qed

section \<open>Parent links and children lists\<close>

text \<open>
  Claim C10 says that in every returned tree the children of the root have no
  \<^verbatim>\<open>parent\<close> property, parent assignment and child insertion going together. The
  third loop of \<^verbatim>\<open>threadAnnotations\<close> tests \<^verbatim>\<open>!threads[id].parent\<close>, which also holds
  for the empty string: for \<^verbatim>\<open>{id: 'a1', $tag: 't1', references: ['']}\<close> the thread
  \<^verbatim>\<open>a1\<close> is attached to the placeholder with the empty id and, its \<^verbatim>\<open>parent\<close> being
  the empty string, collected as a top-level thread as well. (For an input without an
  empty reference the links do agree: \<open>parent_links_agree\<close>.)
\<close>

theorem empty_reference_thread_is_root_and_child:
  "\<forall>fuel.
     buildThread (Suc (Suc fuel))
       [\<lparr>id_ann = Some ''a1'', tag = ''t1'', references = Some [''''], created = ''''\<rparr>]
       defaultOpts
     = Inr (Thread
       \<lparr>id_thr = ''root'', annotation = None, parent = None,
          visible = False, collapsed = False, replyCount = 3, depth = - 1,
          totalChildren = Some 2\<rparr>
       [Thread
         \<lparr>id_thr = '''', annotation = None, parent = None, visible = False,
            collapsed = True, replyCount = 1, depth = 0,
            totalChildren = None\<rparr>
         [Thread
           \<lparr>id_thr = ''a1'',
              annotation =
                Some \<lparr>id_ann = Some ''a1'', tag = ''t1'',
                    references = Some [''''], created = ''''\<rparr>,
              parent = Some '''', visible = True, collapsed = True,
              replyCount = 0, depth = 1, totalChildren = None\<rparr>
           []],
        Thread
         \<lparr>id_thr = ''a1'',
            annotation =
              Some \<lparr>id_ann = Some ''a1'', tag = ''t1'', references = Some [''''],
                  created = ''''\<rparr>,
            parent = Some '''', visible = True, collapsed = True,
            replyCount = 0, depth = 0, totalChildren = None\<rparr>
         []])"
  by (simp add: build_defs store_defs setParent.simps tree_defs)

end
